theory Spec2Isabelle
  imports Main "HOL-Library.Monad_Syntax" "HOL-Library.Char_ord" "HOL-Library.List_Lexorder"
    "HOL-Library.Sublist"
begin

section \<open>The service discovery engine of QtQuickVcp (servicediscovery.cpp)\<close>

text \<open>
  The engine is a single-threaded object: every slot runs to completion. Each member
  function of \<^verbatim>\<open>ServiceDiscovery\<close> becomes a function on the record of the member
  variables. A function that dereferences a pointer returns an \<open>option\<close>: \<open>None\<close> is
  the dereference of a null or deleted pointer (undefined behaviour in C++, a crash in
  practice), \<open>Some\<close> is the normal return with the new state.
\<close>

subsection \<open>QMap\<close>

text \<open>
  \<^verbatim>\<open>QMap<K, V>\<close> keeps its entries in ascending key order with one entry per key; the
  source iterates over it with \<^verbatim>\<open>QMapIterator\<close>, which walks a snapshot in that order.
  It is modelled as an association list. \<^verbatim>\<open>value(k)\<close> returns a default-constructed
  value for a missing key, which the caller of \<open>qvalue\<close> supplies.
\<close>

type_synonym ('k, 'v) qmap = "('k \<times> 'v) list"

definition qcontains :: "('k, 'v) qmap \<Rightarrow> 'k \<Rightarrow> bool" where
  "qcontains m k = (k \<in> fst ` set m)"

definition qvalue :: "'v \<Rightarrow> ('k, 'v) qmap \<Rightarrow> 'k \<Rightarrow> 'v" where
  "qvalue dflt m k = (case map_of m k of None \<Rightarrow> dflt | Some v \<Rightarrow> v)"

definition qremove :: "'k \<Rightarrow> ('k, 'v) qmap \<Rightarrow> ('k, 'v) qmap" where
  "qremove k m = filter (\<lambda>p. fst p \<noteq> k) m"

definition qinsert :: "'k::linorder \<Rightarrow> 'v \<Rightarrow> ('k, 'v) qmap \<Rightarrow> ('k, 'v) qmap" where
  "qinsert k v m =
     filter (\<lambda>p. fst p < k) m @ (k, v) # filter (\<lambda>p. k < fst p) m"

definition qkeys :: "('k, 'v) qmap \<Rightarrow> 'k list" where
  "qkeys m = map fst m"

subsection \<open>Data\<close>

text \<open>
  \<^verbatim>\<open>QJDns::Type\<close> is declared in the jdns library. \<open>NoType\<close> stands for the
  value-initialised enum (0), which is what \<^verbatim>\<open>QMap::value\<close> returns for a missing key
  and which equals none of the enumerators.
\<close>

datatype qtype = NoType | A | Aaaa | Mx | Srv | Cname | Ptr | Txt | Hinfo | Ns | Any

datatype LookupMode = MulticastDNS | UnicastDNS

type_synonym addr = nat

text \<open>
  Modelled from the spec: the class \<^verbatim>\<open>ServiceDiscoveryItem\<close> (servicediscoveryitem.h
  is not part of the sources at hand). Its fields follow the Instance record of the
  specification; \<open>outstandingRequests\<close> is the set of query ids, \<open>errorCount\<close> an
  integer counter (taken unbounded).
\<close>

record ServiceDiscoveryItem =
  itemName :: string
  itemType :: string
  txtRecords :: "string list"
  hostName :: string
  port :: int
  hostAddress :: string
  outstandingRequests :: "int set"
  updated :: bool
  errorCount :: int

definition newServiceDiscoveryItem :: ServiceDiscoveryItem where
  "newServiceDiscoveryItem =
     \<lparr>itemName = [], itemType = [], txtRecords = [], hostName = [], port = 0,
      hostAddress = [], outstandingRequests = {}, updated = False, errorCount = 0\<rparr>"

text \<open>
  Modelled from the spec: the classes \<^verbatim>\<open>ServiceDiscoveryFilter\<close> and
  \<^verbatim>\<open>ServiceDiscoveryQuery\<close>. A filter is a name pattern and a list of TXT patterns; a
  query is a service type, a record type, a filter and the list of item pointers that
  \<^verbatim>\<open>setItems\<close> stores. Filters are taken by value (never null).
\<close>

record ServiceDiscoveryFilter =
  filterName :: string
  filterTxtRecords :: "string list"

record ServiceDiscoveryQuery =
  serviceType :: string
  queryType :: qtype
  queryFilter :: ServiceDiscoveryFilter
  items :: "addr list"

text \<open>A \<^verbatim>\<open>Service\<close> holds queries, a \<^verbatim>\<open>ServiceList\<close> holds services.\<close>

type_synonym Service = "ServiceDiscoveryQuery list"
type_synonym ServiceList = "Service list"

text \<open>
  The lookup backend \<^verbatim>\<open>QJDns\<close> is an external library. Of its state the model keeps
  the calls it received: \<open>started\<close> logs every \<^verbatim>\<open>queryStart(name, type)\<close> with the id it
  returned, \<open>cancelled\<close> every \<^verbatim>\<open>queryCancel(id)\<close>. The id returned by the \<open>n\<close>-th
  \<^verbatim>\<open>queryStart\<close> is \<open>idSource n\<close>: the allocation policy is a parameter of the backend.
\<close>

record QJDns =
  idSource :: "nat \<Rightarrow> int"
  started :: "(int \<times> string \<times> qtype) list"
  cancelled :: "int list"

text \<open>The fields of \<^verbatim>\<open>QJDns::Record\<close> that \<^verbatim>\<open>resultsReady\<close> reads.\<close>

record Record =
  rName :: string
  rTtl :: int
  rTexts :: "string list"
  rPort :: int
  rAddress :: string

text \<open>
  The member variables. \<open>heap\<close> holds the \<^verbatim>\<open>ServiceDiscoveryItem\<close> objects that the
  pointers in \<open>m_serviceItemsMap\<close>, \<open>m_queryIdItemMap\<close> and the queries refer to;
  \<open>nextAddr\<close> is the address the next \<^verbatim>\<open>new\<close> returns. \<open>m_unicastLookupTimer\<close> is
  whether the timer is active.
\<close>

record ServiceDiscovery =
  m_componentCompleted :: bool
  m_running :: bool
  m_networkReady :: bool
  m_lookupReady :: bool
  m_lookupMode :: LookupMode
  m_unicastErrorThreshold :: int
  m_filter :: ServiceDiscoveryFilter
  m_serviceLists :: "ServiceList list"
  m_jdns :: "QJDns option"
  m_unicastLookupTimer :: bool
  m_serviceItemsMap :: "(string, addr list) qmap"
  m_serviceTypeMap :: "(string, qtype) qmap"
  m_queryIdTypeMap :: "(int, qtype) qmap"
  m_queryIdServiceMap :: "(int, string) qmap"
  m_queryIdItemMap :: "(int, addr) qmap"
  heap :: "addr \<rightharpoonup> ServiceDiscoveryItem"
  nextAddr :: addr

text \<open>The state the constructor leaves.\<close>

definition initial :: ServiceDiscovery where
  "initial =
     \<lparr>m_componentCompleted = False, m_running = False, m_networkReady = False,
      m_lookupReady = False, m_lookupMode = MulticastDNS, m_unicastErrorThreshold = 2,
      m_filter = \<lparr>filterName = [], filterTxtRecords = []\<rparr>, m_serviceLists = [],
      m_jdns = None, m_unicastLookupTimer = False, m_serviceItemsMap = [],
      m_serviceTypeMap = [], m_queryIdTypeMap = [], m_queryIdServiceMap = [],
      m_queryIdItemMap = [], heap = Map.empty, nextAddr = 0\<rparr>"

subsection \<open>Backend calls and item access\<close>

definition jdns_queryStart ::
  "string \<Rightarrow> qtype \<Rightarrow> ServiceDiscovery \<Rightarrow> (int \<times> ServiceDiscovery) option" where
  "jdns_queryStart nm ty s =
     (case m_jdns s of
        None \<Rightarrow> None
      | Some j \<Rightarrow>
          let queryId = idSource j (length (started j))
          in Some (queryId, s\<lparr>m_jdns := Some (j\<lparr>started := started j @ [(queryId, nm, ty)]\<rparr>)\<rparr>))"

definition jdns_queryCancel :: "int \<Rightarrow> ServiceDiscovery \<Rightarrow> ServiceDiscovery option" where
  "jdns_queryCancel queryId s =
     (case m_jdns s of
        None \<Rightarrow> None
      | Some j \<Rightarrow> Some (s\<lparr>m_jdns := Some (j\<lparr>cancelled := cancelled j @ [queryId]\<rparr>)\<rparr>))"

text \<open>\<open>item->f(...)\<close> for a setter \<open>f\<close>: fails on a null or deleted pointer.\<close>

definition item_modify ::
  "addr option \<Rightarrow> (ServiceDiscoveryItem \<Rightarrow> ServiceDiscoveryItem) \<Rightarrow> ServiceDiscovery
     \<Rightarrow> ServiceDiscovery option" where
  "item_modify p f s =
     (case p of
        None \<Rightarrow> None
      | Some a \<Rightarrow>
          (case heap s a of
             None \<Rightarrow> None
           | Some it \<Rightarrow> Some (s\<lparr>heap := (heap s)(a \<mapsto> f it)\<rparr>)))"

text \<open>\<^verbatim>\<open>item->deleteLater()\<close>: the object is gone once the slot returns.\<close>

definition deleteLater :: "addr \<Rightarrow> ServiceDiscovery \<Rightarrow> ServiceDiscovery" where
  "deleteLater a s = s\<lparr>heap := (heap s)(a := None)\<rparr>"

subsection \<open>Filtering\<close>

text \<open>
  \<^verbatim>\<open>QRegExp\<close> is a Qt class. The parameter \<open>rx\<close> of the functions below is its
  matcher: \<open>rx p str\<close> is
  \<^verbatim>\<open>str.contains(QRegExp(p, Qt::CaseSensitive, QRegExp::WildcardUnix))\<close>, which is also
  the test \<^verbatim>\<open>QStringList::filter(QRegExp)\<close> applies to each element.
\<close>

type_synonym matcher = "string \<Rightarrow> string \<Rightarrow> bool"

fun txtRecords_loop :: "matcher \<Rightarrow> string list \<Rightarrow> string list \<Rightarrow> string list" where
  "txtRecords_loop rx [] txts = txts"
| "txtRecords_loop rx (flt # flts) txts = txtRecords_loop rx flts (filter (rx flt) txts)"

definition filterServiceDiscoveryItem ::
  "matcher \<Rightarrow> ServiceDiscoveryItem \<Rightarrow> ServiceDiscoveryFilter \<Rightarrow> bool" where
  "filterServiceDiscoveryItem rx item serviceDiscoveryFilter =
     (if \<not> (filterName serviceDiscoveryFilter = [] \<or>
             rx (filterName serviceDiscoveryFilter) (itemName item))
      then False
      else if filterTxtRecords serviceDiscoveryFilter \<noteq> []
      then (if txtRecords_loop rx (filterTxtRecords serviceDiscoveryFilter) (txtRecords item) = []
            then False else True)
      else True)"

fun filterServiceDiscoveryItems ::
  "matcher \<Rightarrow> (addr \<rightharpoonup> ServiceDiscoveryItem) \<Rightarrow> addr list \<Rightarrow> ServiceDiscoveryFilter
     \<Rightarrow> ServiceDiscoveryFilter \<Rightarrow> addr list option" where
  "filterServiceDiscoveryItems rx h [] primaryFilter secondaryFilter = Some []"
| "filterServiceDiscoveryItems rx h (a # as) primaryFilter secondaryFilter =
     (case h a of
        None \<Rightarrow> None
      | Some item \<Rightarrow>
          (case filterServiceDiscoveryItems rx h as primaryFilter secondaryFilter of
             None \<Rightarrow> None
           | Some rest \<Rightarrow>
               Some (if filterServiceDiscoveryItem rx item primaryFilter \<and>
                        filterServiceDiscoveryItem rx item secondaryFilter
                     then a # rest else rest)))"

subsection \<open>Queries for service types\<close>

text \<open>
  The loop shared by \<^verbatim>\<open>startQuery\<close>, \<^verbatim>\<open>stopQuery\<close> and \<^verbatim>\<open>refreshQuery\<close>: the first
  id, in key order, that \<open>m_queryIdServiceMap\<close> binds to the service type.
\<close>

fun findQuery :: "string \<Rightarrow> (int, string) qmap \<Rightarrow> int option" where
  "findQuery st [] = None"
| "findQuery st ((k, v) # m) =
     (if v = st then Some k else findQuery st m)"

definition startQuery :: "string \<Rightarrow> ServiceDiscovery \<Rightarrow> ServiceDiscovery option" where
  "startQuery st s =
     (case findQuery st (m_queryIdServiceMap s) of
        Some _ \<Rightarrow> Some s
      | None \<Rightarrow> do {
          let queryType = qvalue NoType (m_serviceTypeMap s) st;
          (queryId, s1) \<leftarrow> jdns_queryStart st queryType s;
          Some (s1\<lparr>m_queryIdTypeMap := qinsert queryId queryType (m_queryIdTypeMap s1),
                   m_queryIdServiceMap := qinsert queryId st (m_queryIdServiceMap s1)\<rparr>)
        })"

fun stopItemQueries_loop ::
  "addr \<Rightarrow> (int, addr) qmap \<Rightarrow> ServiceDiscovery \<Rightarrow> ServiceDiscovery option" where
  "stopItemQueries_loop item [] s = Some s"
| "stopItemQueries_loop item ((queryId, v) # rest) s =
     (if v = item then do {
        s1 \<leftarrow> jdns_queryCancel queryId s;
        stopItemQueries_loop item rest
          (s1\<lparr>m_queryIdItemMap := qremove queryId (m_queryIdItemMap s1),
               m_queryIdTypeMap := qremove queryId (m_queryIdTypeMap s1)\<rparr>)
      } else stopItemQueries_loop item rest s)"

definition stopItemQueries :: "addr \<Rightarrow> ServiceDiscovery \<Rightarrow> ServiceDiscovery option" where
  "stopItemQueries item s = stopItemQueries_loop item (m_queryIdItemMap s) s"

definition addServiceType :: "string \<Rightarrow> qtype \<Rightarrow> ServiceDiscovery \<Rightarrow> ServiceDiscovery" where
  "addServiceType st qt s =
     (if qcontains (m_serviceItemsMap s) st then s
      else s\<lparr>m_serviceItemsMap := qinsert st [] (m_serviceItemsMap s),
             m_serviceTypeMap := qinsert st qt (m_serviceTypeMap s)\<rparr>)"

subsection \<open>Projection to the user's queries\<close>

fun forEach :: "('a \<Rightarrow> 'a option) \<Rightarrow> 'a list \<Rightarrow> 'a list option" where
  "forEach f [] = Some []"
| "forEach f (x # xs) =
     (case f x of
        None \<Rightarrow> None
      | Some y \<Rightarrow> (case forEach f xs of None \<Rightarrow> None | Some ys \<Rightarrow> Some (y # ys)))"

text \<open>The body of the innermost loop of \<^verbatim>\<open>updateServiceType\<close>, for one query.\<close>

definition updateQuery ::
  "matcher \<Rightarrow> (addr \<rightharpoonup> ServiceDiscoveryItem) \<Rightarrow> ServiceDiscoveryFilter \<Rightarrow> string
     \<Rightarrow> addr list \<Rightarrow> ServiceDiscoveryQuery \<Rightarrow> ServiceDiscoveryQuery option" where
  "updateQuery rx h flt st serviceDiscoveryItems query =
     (if serviceType query = st then
        (if queryType query = A then Some (query\<lparr>items := serviceDiscoveryItems\<rparr>)
         else (case filterServiceDiscoveryItems rx h serviceDiscoveryItems flt (queryFilter query) of
                 None \<Rightarrow> None
               | Some l \<Rightarrow> Some (query\<lparr>items := l\<rparr>)))
      else Some query)"

definition updateServiceType ::
  "matcher \<Rightarrow> string \<Rightarrow> ServiceDiscovery \<Rightarrow> ServiceDiscovery option" where
  "updateServiceType rx st s =
     (if qcontains (m_serviceItemsMap s) st then
        (case forEach (forEach (forEach
                 (updateQuery rx (heap s) (m_filter s) st (qvalue [] (m_serviceItemsMap s) st))))
                (m_serviceLists s) of
           None \<Rightarrow> None
         | Some serviceLists \<Rightarrow> Some (s\<lparr>m_serviceLists := serviceLists\<rparr>))
      else Some s)"

fun updateAllServiceTypes_loop ::
  "matcher \<Rightarrow> string list \<Rightarrow> ServiceDiscovery \<Rightarrow> ServiceDiscovery option" where
  "updateAllServiceTypes_loop rx [] s = Some s"
| "updateAllServiceTypes_loop rx (k # ks) s =
     (case updateServiceType rx k s of
        None \<Rightarrow> None
      | Some s1 \<Rightarrow> updateAllServiceTypes_loop rx ks s1)"

definition updateAllServiceTypes :: "matcher \<Rightarrow> ServiceDiscovery \<Rightarrow> ServiceDiscovery option" where
  "updateAllServiceTypes rx s = updateAllServiceTypes_loop rx (qkeys (m_serviceItemsMap s)) s"

subsection \<open>The instance table\<close>

text \<open>
  The loop of \<^verbatim>\<open>addItem\<close>, \<^verbatim>\<open>getItem\<close> and \<^verbatim>\<open>removeItem\<close>: the index of the first item
  of the list whose name is \<open>nm\<close>. The outer \<open>option\<close> is the dereference of the items.
\<close>

fun findItem ::
  "(addr \<rightharpoonup> ServiceDiscoveryItem) \<Rightarrow> string \<Rightarrow> addr list \<Rightarrow> nat option option" where
  "findItem h nm [] = Some None"
| "findItem h nm (a # as) =
     (case h a of
        None \<Rightarrow> None
      | Some item \<Rightarrow>
          if itemName item = nm then Some (Some 0)
          else (case findItem h nm as of
                  None \<Rightarrow> None
                | Some None \<Rightarrow> Some None
                | Some (Some i) \<Rightarrow> Some (Some (Suc i))))"

definition addItem ::
  "string \<Rightarrow> string \<Rightarrow> ServiceDiscovery \<Rightarrow> (addr option \<times> ServiceDiscovery) option" where
  "addItem nm ty s =
     (if qcontains (m_serviceItemsMap s) ty then
        (let serviceDiscoveryItems = qvalue [] (m_serviceItemsMap s) ty
         in case findItem (heap s) nm serviceDiscoveryItems of
              None \<Rightarrow> None
            | Some (Some i) \<Rightarrow> Some (Some (serviceDiscoveryItems ! i), s)
            | Some None \<Rightarrow>
                let item = nextAddr s
                in Some (Some item,
                     s\<lparr>heap := (heap s)(item \<mapsto> newServiceDiscoveryItem\<lparr>itemName := nm, itemType := ty\<rparr>),
                       nextAddr := Suc item,
                       m_serviceItemsMap :=
                         qinsert ty (serviceDiscoveryItems @ [item]) (m_serviceItemsMap s)\<rparr>))
      else Some (None, s))"

definition getItem ::
  "string \<Rightarrow> string \<Rightarrow> ServiceDiscovery \<Rightarrow> addr option option" where
  "getItem nm ty s =
     (if qcontains (m_serviceItemsMap s) ty then
        (let serviceDiscoveryItems = qvalue [] (m_serviceItemsMap s) ty
         in case findItem (heap s) nm serviceDiscoveryItems of
              None \<Rightarrow> None
            | Some (Some i) \<Rightarrow> Some (Some (serviceDiscoveryItems ! i))
            | Some None \<Rightarrow> Some None)
      else Some None)"

definition updateItem ::
  "matcher \<Rightarrow> string \<Rightarrow> string \<Rightarrow> ServiceDiscovery \<Rightarrow> ServiceDiscovery option" where
  "updateItem rx nm ty s = updateServiceType rx ty s"

definition removeItem ::
  "matcher \<Rightarrow> string \<Rightarrow> string \<Rightarrow> ServiceDiscovery \<Rightarrow> ServiceDiscovery option" where
  "removeItem rx nm ty s =
     (if qcontains (m_serviceItemsMap s) ty then
        (let serviceDiscoveryItems = qvalue [] (m_serviceItemsMap s) ty
         in case findItem (heap s) nm serviceDiscoveryItems of
              None \<Rightarrow> None
            | Some None \<Rightarrow> Some s
            | Some (Some i) \<Rightarrow> do {
                s1 \<leftarrow> stopItemQueries (serviceDiscoveryItems ! i) s;
                let s2 = deleteLater (serviceDiscoveryItems ! i) s1;
                let s3 = s2\<lparr>m_serviceItemsMap :=
                              qinsert ty (take i serviceDiscoveryItems @ drop (Suc i) serviceDiscoveryItems)
                                (m_serviceItemsMap s2)\<rparr>;
                updateServiceType rx ty s3
              })
      else Some s)"

text \<open>
  \<^verbatim>\<open>clearItems\<close> takes the items from the last to the first; the loop below runs over
  the reversed list.
\<close>

fun clearItems_loop :: "addr list \<Rightarrow> ServiceDiscovery \<Rightarrow> ServiceDiscovery option" where
  "clearItems_loop [] s = Some s"
| "clearItems_loop (item # rest) s =
     (case stopItemQueries item s of
        None \<Rightarrow> None
      | Some s1 \<Rightarrow> clearItems_loop rest (deleteLater item s1))"

definition clearItems ::
  "matcher \<Rightarrow> string \<Rightarrow> ServiceDiscovery \<Rightarrow> ServiceDiscovery option" where
  "clearItems rx ty s =
     (if qcontains (m_serviceItemsMap s) ty then do {
        s1 \<leftarrow> clearItems_loop (rev (qvalue [] (m_serviceItemsMap s) ty)) s;
        updateServiceType rx ty (s1\<lparr>m_serviceItemsMap := qinsert ty [] (m_serviceItemsMap s1)\<rparr>)
      } else Some s)"

text \<open>
  The loop of \<^verbatim>\<open>purgeItems\<close>, also from the last item to the first: \<open>todo\<close> is the
  reversed rest of the list, \<open>kept\<close> the items that stay, \<open>modified\<close> the flag.
\<close>

fun purgeItems_loop ::
  "addr list \<Rightarrow> addr list \<Rightarrow> bool \<Rightarrow> ServiceDiscovery
     \<Rightarrow> (addr list \<times> bool \<times> ServiceDiscovery) option" where
  "purgeItems_loop [] kept modified s = Some (kept, modified, s)"
| "purgeItems_loop (a # todo) kept modified s =
     (case heap s a of
        None \<Rightarrow> None
      | Some item \<Rightarrow>
          if \<not> updated item then
            (let s1 = s\<lparr>heap := (heap s)(a \<mapsto> item\<lparr>errorCount := errorCount item + 1\<rparr>)\<rparr>
             in if errorCount item + 1 > m_unicastErrorThreshold s1 then
                  (case stopItemQueries a s1 of
                     None \<Rightarrow> None
                   | Some s2 \<Rightarrow> purgeItems_loop todo kept True (deleteLater a s2))
                else purgeItems_loop todo (a # kept) modified s1)
          else purgeItems_loop todo (a # kept) modified
                 (s\<lparr>heap := (heap s)(a \<mapsto> item\<lparr>updated := False\<rparr>)\<rparr>))"

definition purgeItems ::
  "matcher \<Rightarrow> string \<Rightarrow> ServiceDiscovery \<Rightarrow> ServiceDiscovery option" where
  "purgeItems rx st s =
     (if qcontains (m_serviceItemsMap s) st then
        (case purgeItems_loop (rev (qvalue [] (m_serviceItemsMap s) st)) [] False s of
           None \<Rightarrow> None
         | Some (serviceDiscoveryItems, modified, s1) \<Rightarrow>
             if modified then
               updateServiceType rx st
                 (s1\<lparr>m_serviceItemsMap := qinsert st serviceDiscoveryItems (m_serviceItemsMap s1)\<rparr>)
             else Some s1)
      else Some s)"

definition stopQuery ::
  "matcher \<Rightarrow> string \<Rightarrow> ServiceDiscovery \<Rightarrow> ServiceDiscovery option" where
  "stopQuery rx st s =
     (case findQuery st (m_queryIdServiceMap s) of
        None \<Rightarrow> Some s
      | Some queryId \<Rightarrow> do {
          s1 \<leftarrow> jdns_queryCancel queryId s;
          clearItems rx st
            (s1\<lparr>m_queryIdTypeMap := qremove queryId (m_queryIdTypeMap s1),
                m_queryIdServiceMap := qremove queryId (m_queryIdServiceMap s1)\<rparr>)
        })"

definition refreshQuery ::
  "matcher \<Rightarrow> string \<Rightarrow> ServiceDiscovery \<Rightarrow> ServiceDiscovery option" where
  "refreshQuery rx st s =
     (case findQuery st (m_queryIdServiceMap s) of
        None \<Rightarrow> Some s
      | Some queryId \<Rightarrow> do {
          let queryType = qvalue NoType (m_serviceTypeMap s) st;
          s1 \<leftarrow> jdns_queryCancel queryId s;
          s2 \<leftarrow> purgeItems rx st
                 (s1\<lparr>m_queryIdTypeMap := qremove queryId (m_queryIdTypeMap s1),
                     m_queryIdServiceMap := qremove queryId (m_queryIdServiceMap s1)\<rparr>);
          (newId, s3) \<leftarrow> jdns_queryStart st queryType s2;
          Some (s3\<lparr>m_queryIdTypeMap := qinsert newId queryType (m_queryIdTypeMap s3),
                   m_queryIdServiceMap := qinsert newId st (m_queryIdServiceMap s3)\<rparr>)
        })"

definition removeServiceType ::
  "matcher \<Rightarrow> string \<Rightarrow> ServiceDiscovery \<Rightarrow> ServiceDiscovery option" where
  "removeServiceType rx st s =
     (if qcontains (m_serviceItemsMap s) st then do {
        s1 \<leftarrow> clearItems rx st s;
        Some (s1\<lparr>m_serviceItemsMap := qremove st (m_serviceItemsMap s1),
                 m_serviceTypeMap := qremove st (m_serviceTypeMap s1)\<rparr>)
      } else Some s)"

text \<open>
  A loop that calls \<open>f\<close> for each element of a list: the keys of a snapshot of a map,
  the answer records of a response.
\<close>

fun forKeys ::
  "('k \<Rightarrow> ServiceDiscovery \<Rightarrow> ServiceDiscovery option) \<Rightarrow> 'k list \<Rightarrow> ServiceDiscovery
     \<Rightarrow> ServiceDiscovery option" where
  "forKeys f [] s = Some s"
| "forKeys f (k # ks) s = (case f k s of None \<Rightarrow> None | Some s1 \<Rightarrow> forKeys f ks s1)"

definition removeAllServiceTypes :: "matcher \<Rightarrow> ServiceDiscovery \<Rightarrow> ServiceDiscovery option" where
  "removeAllServiceTypes rx s = forKeys (removeServiceType rx) (qkeys (m_serviceItemsMap s)) s"

definition startQueries :: "ServiceDiscovery \<Rightarrow> ServiceDiscovery option" where
  "startQueries s = forKeys startQuery (qkeys (m_serviceItemsMap s)) s"

definition stopQueries :: "matcher \<Rightarrow> ServiceDiscovery \<Rightarrow> ServiceDiscovery option" where
  "stopQueries rx s = forKeys (stopQuery rx) (qkeys (m_serviceItemsMap s)) s"

definition unicastLookup :: "matcher \<Rightarrow> ServiceDiscovery \<Rightarrow> ServiceDiscovery option" where
  "unicastLookup rx s = forKeys (refreshQuery rx) (qkeys (m_serviceItemsMap s)) s"

subsection \<open>Answers from the backend\<close>

text \<open>
  \<^verbatim>\<open>QByteArray::indexOf\<close> returns the index of the first occurrence of the needle, or
  \<open>-1\<close>. \<^verbatim>\<open>QByteArray::left(len)\<close> of Qt 5 returns the whole array when \<open>len\<close> is not
  less than its size, the empty array when \<open>len\<close> is negative, the first \<open>len\<close> bytes
  otherwise.
\<close>

fun indexOf :: "string \<Rightarrow> string \<Rightarrow> int" where
  "indexOf [] needle = (if needle = [] then 0 else - 1)"
| "indexOf (c # cs) needle =
     (if take (length needle) (c # cs) = needle then 0
      else (let i = indexOf cs needle in if i < 0 then - 1 else i + 1))"

definition left :: "int \<Rightarrow> string \<Rightarrow> string" where
  "left len ba =
     (if len \<ge> int (length ba) then ba else if len < 0 then [] else take (nat len) ba)"

text \<open>
  The four statements that \<^verbatim>\<open>resultsReady\<close> repeats for each sub-query it starts:
  \<^verbatim>\<open>queryStart\<close>, \<^verbatim>\<open>item->addOutstandingRequest(newId)\<close> and the two inserts.
\<close>

definition startItemQuery ::
  "string \<Rightarrow> qtype \<Rightarrow> addr option \<Rightarrow> ServiceDiscovery \<Rightarrow> ServiceDiscovery option" where
  "startItemQuery nm ty item s = do {
     (newId, s1) \<leftarrow> jdns_queryStart nm ty s;
     s2 \<leftarrow> item_modify item
             (\<lambda>it. it\<lparr>outstandingRequests := insert newId (outstandingRequests it)\<rparr>) s1;
     (case item of
        None \<Rightarrow> None
      | Some a \<Rightarrow>
          Some (s2\<lparr>m_queryIdTypeMap := qinsert newId ty (m_queryIdTypeMap s2),
                   m_queryIdItemMap := qinsert newId a (m_queryIdItemMap s2)\<rparr>))
   }"

text \<open>
  The five statements that open the TXT, SRV and A branches: the lookup of the item,
  \<^verbatim>\<open>queryCancel\<close>, \<^verbatim>\<open>item->removeOutstandingRequest(id)\<close> and the two removals.
\<close>

definition finishItemQuery ::
  "int \<Rightarrow> ServiceDiscovery \<Rightarrow> (addr option \<times> ServiceDiscovery) option" where
  "finishItemQuery qid s = do {
     let item = map_of (m_queryIdItemMap s) qid;
     s1 \<leftarrow> jdns_queryCancel qid s;
     s2 \<leftarrow> item_modify item
             (\<lambda>it. it\<lparr>outstandingRequests := outstandingRequests it - {qid}\<rparr>) s1;
     Some (item, s2\<lparr>m_queryIdTypeMap := qremove qid (m_queryIdTypeMap s2),
                     m_queryIdItemMap := qremove qid (m_queryIdItemMap s2)\<rparr>)
   }"

text \<open>The branches of the loop body of \<^verbatim>\<open>resultsReady\<close>: the item and the new state.\<close>

definition resultsReady_branch ::
  "matcher \<Rightarrow> int \<Rightarrow> qtype \<Rightarrow> Record \<Rightarrow> ServiceDiscovery
     \<Rightarrow> (addr option \<times> ServiceDiscovery) option" where
  "resultsReady_branch rx qid ty r s =
     (if ty = Ptr then
        (let st = qvalue [] (m_queryIdServiceMap s) qid;
             nm = left (indexOf (rName r) ''._'') (rName r)
         in if rTtl r > 0 then do {
              (item, s1) \<leftarrow> addItem nm st s;
              s2 \<leftarrow> startItemQuery (rName r) Txt item s1;
              s3 \<leftarrow> startItemQuery (rName r) Srv item s2;
              Some (item, s3)
            } else do {
              s1 \<leftarrow> removeItem rx nm st s;
              Some (None, s1)
            })
      else if ty = Txt then do {
        (item, s1) \<leftarrow> finishItemQuery qid s;
        s2 \<leftarrow> item_modify item (\<lambda>it. it\<lparr>txtRecords := rTexts r\<rparr>) s1;
        Some (item, s2)
      }
      else if ty = Srv then do {
        (item, s1) \<leftarrow> finishItemQuery qid s;
        s2 \<leftarrow> startItemQuery (rName r) A item s1;
        s3 \<leftarrow> item_modify item (\<lambda>it. it\<lparr>hostName := rName r, port := rPort r\<rparr>) s2;
        Some (item, s3)
      }
      else if ty = A \<or> ty = Aaaa then do {
        (item, s1) \<leftarrow> finishItemQuery qid s;
        s2 \<leftarrow> item_modify item (\<lambda>it. it\<lparr>hostAddress := rAddress r\<rparr>) s1;
        Some (item, s2)
      }
      else Some (None, s))"

text \<open>The end of the loop body: an item without outstanding requests is fully resolved.\<close>

definition resultsReady_resolved ::
  "matcher \<Rightarrow> addr option \<Rightarrow> ServiceDiscovery \<Rightarrow> ServiceDiscovery option" where
  "resultsReady_resolved rx item s =
     (case item of
        None \<Rightarrow> Some s
      | Some a \<Rightarrow>
          (case heap s a of
             None \<Rightarrow> None
           | Some it \<Rightarrow>
               if outstandingRequests it = {} then do {
                 s1 \<leftarrow> updateItem rx (itemName it) (itemType it) s;
                 item_modify item (\<lambda>it. it\<lparr>updated := True, errorCount := 0\<rparr>) s1
               } else Some s))"

definition resultsReady_record ::
  "matcher \<Rightarrow> int \<Rightarrow> qtype \<Rightarrow> Record \<Rightarrow> ServiceDiscovery \<Rightarrow> ServiceDiscovery option" where
  "resultsReady_record rx qid ty r s = do {
     (item, s1) \<leftarrow> resultsReady_branch rx qid ty r s;
     resultsReady_resolved rx item s1
   }"

text \<open>The type is read once, before the loop over the answer records.\<close>

definition resultsReady ::
  "matcher \<Rightarrow> int \<Rightarrow> Record list \<Rightarrow> ServiceDiscovery \<Rightarrow> ServiceDiscovery option" where
  "resultsReady rx qid answerRecords s =
     forKeys (resultsReady_record rx qid (qvalue NoType (m_queryIdTypeMap s) qid)) answerRecords s"

subsection \<open>Lifecycle\<close>

text \<open>
  The two loops of \<^verbatim>\<open>updateServices\<close>: over all queries of all services of all lists,
  then over the service types that no query names any more.
\<close>

fun updateServices_add ::
  "ServiceDiscoveryQuery list \<Rightarrow> (string, addr list) qmap \<Rightarrow> ServiceDiscovery
     \<Rightarrow> ((string, addr list) qmap \<times> ServiceDiscovery) option" where
  "updateServices_add [] oldServiceTypeMap s = Some (oldServiceTypeMap, s)"
| "updateServices_add (query # rest) oldServiceTypeMap s =
     (if serviceType query \<noteq> [] then
        (let s1 = addServiceType (serviceType query) (queryType query) s
         in case (if m_running s1 \<and> m_networkReady s1 then startQuery (serviceType query) s1
                  else Some s1) of
              None \<Rightarrow> None
            | Some s2 \<Rightarrow>
                updateServices_add rest (qremove (serviceType query) oldServiceTypeMap) s2)
      else updateServices_add rest oldServiceTypeMap s)"

definition updateServices_remove ::
  "matcher \<Rightarrow> string \<Rightarrow> ServiceDiscovery \<Rightarrow> ServiceDiscovery option" where
  "updateServices_remove rx k s = do {
     s1 \<leftarrow> (if m_running s \<and> m_networkReady s then stopQuery rx k s else Some s);
     removeServiceType rx k s1
   }"

definition updateServices :: "matcher \<Rightarrow> ServiceDiscovery \<Rightarrow> ServiceDiscovery option" where
  "updateServices rx s = do {
     (oldServiceTypeMap, s1) \<leftarrow>
        updateServices_add (concat (concat (m_serviceLists s))) (m_serviceItemsMap s) s;
     s2 \<leftarrow> forKeys (updateServices_remove rx) (qkeys oldServiceTypeMap) s1;
     updateAllServiceTypes rx s2
   }"

definition updateFilter :: "matcher \<Rightarrow> ServiceDiscovery \<Rightarrow> ServiceDiscovery option" where
  "updateFilter rx s = updateAllServiceTypes rx s"

text \<open>
  \<^verbatim>\<open>setFilter\<close> compares pointers; \<open>same\<close> tells whether the argument is the filter
  object the engine already holds.
\<close>

definition setFilter ::
  "matcher \<Rightarrow> bool \<Rightarrow> ServiceDiscoveryFilter \<Rightarrow> ServiceDiscovery \<Rightarrow> ServiceDiscovery option" where
  "setFilter rx same arg s =
     (if \<not> same then updateAllServiceTypes rx (s\<lparr>m_filter := arg\<rparr>) else Some s)"

text \<open>The name servers handed to the backend are not part of the state kept here.\<close>

definition updateNameServers :: "matcher \<Rightarrow> ServiceDiscovery \<Rightarrow> ServiceDiscovery option" where
  "updateNameServers rx s =
     (if m_jdns s = None \<or> m_lookupMode s \<noteq> UnicastDNS then Some s
      else if m_running s then unicastLookup rx s
      else Some s)"

text \<open>
  \<^verbatim>\<open>initializeMdns\<close> creates the backend and calls its \<^verbatim>\<open>init\<close>. The id source of the new
  backend and the result of \<^verbatim>\<open>init\<close> come from outside.
\<close>

definition initializeMdns ::
  "matcher \<Rightarrow> (nat \<Rightarrow> int) \<Rightarrow> bool \<Rightarrow> ServiceDiscovery \<Rightarrow> (bool \<times> ServiceDiscovery) option" where
  "initializeMdns rx src initialized s =
     (if m_jdns s \<noteq> None then Some (True, s)
      else if \<not> initialized then Some (False, s\<lparr>m_jdns := None\<rparr>)
      else do {
        let s1 = s\<lparr>m_jdns := Some \<lparr>idSource = src, started = [], cancelled = []\<rparr>,
                   m_lookupReady := True\<rparr>;
        s2 \<leftarrow> (if m_lookupMode s1 = UnicastDNS then updateNameServers rx s1 else Some s1);
        s3 \<leftarrow> (if m_running s2 then do {
                  s' \<leftarrow> updateServices rx s2;
                  Some (if m_lookupMode s' = UnicastDNS then s'\<lparr>m_unicastLookupTimer := True\<rparr>
                        else s')
                } else Some s2);
        Some (True, s3)
      })"

definition deinitializeMdns :: "matcher \<Rightarrow> ServiceDiscovery \<Rightarrow> ServiceDiscovery option" where
  "deinitializeMdns rx s =
     (if m_jdns s = None then Some s
      else do {
        s1 \<leftarrow> (if m_running s then do {
                  let s0 = (if m_lookupMode s = UnicastDNS then s\<lparr>m_unicastLookupTimer := False\<rparr>
                            else s);
                  s' \<leftarrow> removeAllServiceTypes rx s0;
                  Some (s'\<lparr>m_queryIdItemMap := [], m_queryIdServiceMap := [],
                           m_queryIdTypeMap := []\<rparr>)
                } else Some s);
        Some (s1\<lparr>m_jdns := None, m_lookupReady := False\<rparr>)
      })"

definition networkSessionOpened ::
  "matcher \<Rightarrow> (nat \<Rightarrow> int) \<Rightarrow> bool \<Rightarrow> ServiceDiscovery \<Rightarrow> ServiceDiscovery option" where
  "networkSessionOpened rx src initialized s = do {
     (ok, s1) \<leftarrow> initializeMdns rx src initialized (s\<lparr>m_networkReady := True\<rparr>);
     Some (if \<not> ok then s1\<lparr>m_networkReady := False\<rparr> else s1)
   }"

definition networkSessionClosed :: "matcher \<Rightarrow> ServiceDiscovery \<Rightarrow> ServiceDiscovery option" where
  "networkSessionClosed rx s = do {
     s1 \<leftarrow> deinitializeMdns rx s;
     Some (s1\<lparr>m_networkReady := False\<rparr>)
   }"

definition setRunning :: "matcher \<Rightarrow> bool \<Rightarrow> ServiceDiscovery \<Rightarrow> ServiceDiscovery option" where
  "setRunning rx arg s =
     (if m_running s \<noteq> arg then
        (let s1 = s\<lparr>m_running := arg\<rparr>
         in if \<not> m_networkReady s1 then Some s1
            else if m_running s1 then do {
              s2 \<leftarrow> startQueries s1;
              Some (if m_lookupMode s2 = UnicastDNS then s2\<lparr>m_unicastLookupTimer := True\<rparr>
                    else s2)
            } else
              stopQueries rx
                (if m_lookupMode s1 = UnicastDNS then s1\<lparr>m_unicastLookupTimer := False\<rparr>
                 else s1))
      else Some s)"

definition setLookupMode ::
  "matcher \<Rightarrow> LookupMode \<Rightarrow> (nat \<Rightarrow> int) \<Rightarrow> bool \<Rightarrow> ServiceDiscovery
     \<Rightarrow> ServiceDiscovery option" where
  "setLookupMode rx arg src initialized s =
     (if m_lookupMode s \<noteq> arg then do {
        let ready = m_lookupReady s;
        s1 \<leftarrow> (if ready then deinitializeMdns rx s else Some s);
        let s2 = s1\<lparr>m_lookupMode := arg\<rparr>;
        if ready then do {
          (ok, s3) \<leftarrow> initializeMdns rx src initialized s2;
          Some (if \<not> ok then s3\<lparr>m_networkReady := False\<rparr> else s3)
        } else Some s2
      } else Some s)"

definition setUnicastErrorThreshold :: "int \<Rightarrow> ServiceDiscovery \<Rightarrow> ServiceDiscovery" where
  "setUnicastErrorThreshold unicastErrorThreshold s =
     (if m_unicastErrorThreshold s = unicastErrorThreshold then s
      else s\<lparr>m_unicastErrorThreshold := unicastErrorThreshold\<rparr>)"

subsection \<open>Executions\<close>

text \<open>
  What can happen to the engine between two returns to the event loop: a call of one of
  its slots by the user or the QML engine, a signal of the network session, a timeout of
  the unicast timer, an answer or an error from the backend. \<open>EditServiceLists\<close> is the
  user changing the service lists, which the user owns; the new backend of a
  (re-)initialisation never hands out the same id twice.
\<close>

datatype event =
    ComponentComplete
  | NetworkSessionOpened "nat \<Rightarrow> int" bool
  | NetworkSessionClosed
  | SetRunning bool
  | SetLookupMode LookupMode "nat \<Rightarrow> int" bool
  | SetFilter bool ServiceDiscoveryFilter
  | UpdateFilter
  | EditServiceLists "ServiceList list"
  | UpdateServices
  | UpdateNameServers
  | SetUnicastErrorThreshold int
  | UnicastLookupTimeout
  | ResultsReady int "Record list"
  | BackendError int

fun enabled :: "event \<Rightarrow> ServiceDiscovery \<Rightarrow> bool" where
  "enabled (NetworkSessionOpened src initialized) s = inj src"
| "enabled (SetLookupMode arg src initialized) s = inj src"
| "enabled UnicastLookupTimeout s = m_unicastLookupTimer s"
| "enabled e s = True"

fun step :: "matcher \<Rightarrow> event \<Rightarrow> ServiceDiscovery \<Rightarrow> ServiceDiscovery option" where
  "step rx ComponentComplete s = Some (s\<lparr>m_componentCompleted := True\<rparr>)"
| "step rx (NetworkSessionOpened src initialized) s = networkSessionOpened rx src initialized s"
| "step rx NetworkSessionClosed s = networkSessionClosed rx s"
| "step rx (SetRunning arg) s = setRunning rx arg s"
| "step rx (SetLookupMode arg src initialized) s = setLookupMode rx arg src initialized s"
| "step rx (SetFilter same arg) s = setFilter rx same arg s"
| "step rx UpdateFilter s = updateFilter rx s"
| "step rx (EditServiceLists serviceLists) s = Some (s\<lparr>m_serviceLists := serviceLists\<rparr>)"
| "step rx UpdateServices s = updateServices rx s"
| "step rx UpdateNameServers s = updateNameServers rx s"
| "step rx (SetUnicastErrorThreshold arg) s = Some (setUnicastErrorThreshold arg s)"
| "step rx UnicastLookupTimeout s = unicastLookup rx s"
| "step rx (ResultsReady qid answerRecords) s = resultsReady rx qid answerRecords s"
| "step rx (BackendError qid) s = Some s"

inductive reachable :: "matcher \<Rightarrow> ServiceDiscovery \<Rightarrow> bool" for rx :: matcher where
  reachable_initial: "reachable rx initial"
| reachable_step:
    "reachable rx s \<Longrightarrow> enabled e s \<Longrightarrow> step rx e s = Some s' \<Longrightarrow> reachable rx s'"

text \<open>A run of events from a state; \<open>None\<close> when an event is not enabled or crashes.\<close>

fun run :: "matcher \<Rightarrow> event list \<Rightarrow> ServiceDiscovery \<Rightarrow> ServiceDiscovery option" where
  "run rx [] s = Some s"
| "run rx (e # es) s =
     (if enabled e s then (case step rx e s of None \<Rightarrow> None | Some s1 \<Rightarrow> run rx es s1)
      else None)"

section \<open>Notions used in the statements and proofs\<close>

subsection \<open>Effects on the registry\<close>

text \<open>
  What the calls to the backend leave of it for the invariants: the id source and the
  number of ids handed out. \<open>cancelAll\<close> is a sequence of \<^verbatim>\<open>queryCancel\<close> calls.
\<close>

definition bk :: "QJDns option \<Rightarrow> ((nat \<Rightarrow> int) \<times> nat) option" where
  "bk J = map_option (\<lambda>j. (idSource j, length (started j))) J"

definition cancelAll :: "int list \<Rightarrow> QJDns option \<Rightarrow> QJDns option" where
  "cancelAll ids J = map_option (\<lambda>j. j\<lparr>cancelled := cancelled j @ ids\<rparr>) J"

text \<open>The ids that \<open>m_queryIdItemMap\<close> binds to one of the items \<open>X\<close>, and their removal.\<close>

definition requestsOf :: "addr set \<Rightarrow> (int, addr) qmap \<Rightarrow> int set" where
  "requestsOf X m = fst ` {p \<in> set m. snd p \<in> X}"

definition dropRequests :: "int set \<Rightarrow> (int, 'v) qmap \<Rightarrow> (int, 'v) qmap" where
  "dropRequests K m = filter (\<lambda>p. fst p \<notin> K) m"

text \<open>The state after the sub-queries of the items \<open>X\<close> have been stopped.\<close>

definition stopped :: "addr set \<Rightarrow> int list \<Rightarrow> ServiceDiscovery \<Rightarrow> ServiceDiscovery" where
  "stopped X ids s =
     s\<lparr>m_jdns := cancelAll ids (m_jdns s),
       m_queryIdItemMap := dropRequests (requestsOf X (m_queryIdItemMap s)) (m_queryIdItemMap s),
       m_queryIdTypeMap := dropRequests (requestsOf X (m_queryIdItemMap s)) (m_queryIdTypeMap s)\<rparr>"

text \<open>The state after a scan for a service type has been started, and stopped.\<close>

definition scanStarted :: "string \<Rightarrow> ServiceDiscovery \<Rightarrow> ServiceDiscovery" where
  "scanStarted st s =
     (case m_jdns s of
        None \<Rightarrow> s
      | Some j \<Rightarrow>
          s\<lparr>m_jdns := Some (j\<lparr>started := started j @
                   [(idSource j (length (started j)), st, qvalue NoType (m_serviceTypeMap s) st)]\<rparr>),
            m_queryIdTypeMap :=
              qinsert (idSource j (length (started j))) (qvalue NoType (m_serviceTypeMap s) st)
                (m_queryIdTypeMap s),
            m_queryIdServiceMap :=
              qinsert (idSource j (length (started j))) st (m_queryIdServiceMap s)\<rparr>)"

definition scanStopped :: "int \<Rightarrow> ServiceDiscovery \<Rightarrow> ServiceDiscovery" where
  "scanStopped queryId s =
     s\<lparr>m_jdns := cancelAll [queryId] (m_jdns s),
       m_queryIdTypeMap := qremove queryId (m_queryIdTypeMap s),
       m_queryIdServiceMap := qremove queryId (m_queryIdServiceMap s)\<rparr>"

text \<open>The state after a sub-query of the item \<open>a\<close> has been started, and answered.\<close>

definition requestStarted :: "string \<Rightarrow> qtype \<Rightarrow> addr \<Rightarrow> ServiceDiscovery \<Rightarrow> ServiceDiscovery" where
  "requestStarted nm qt a s =
     (case m_jdns s of
        None \<Rightarrow> s
      | Some j \<Rightarrow>
          (case heap s a of
             None \<Rightarrow> s
           | Some it \<Rightarrow>
               s\<lparr>m_jdns := Some (j\<lparr>started := started j @ [(idSource j (length (started j)), nm, qt)]\<rparr>),
                 heap := (heap s)(a \<mapsto> it\<lparr>outstandingRequests :=
                            insert (idSource j (length (started j))) (outstandingRequests it)\<rparr>),
                 m_queryIdTypeMap := qinsert (idSource j (length (started j))) qt (m_queryIdTypeMap s),
                 m_queryIdItemMap := qinsert (idSource j (length (started j))) a (m_queryIdItemMap s)\<rparr>))"

definition requestFinished :: "int \<Rightarrow> addr \<Rightarrow> ServiceDiscovery \<Rightarrow> ServiceDiscovery" where
  "requestFinished qid a s =
     (case heap s a of
        None \<Rightarrow> s
      | Some it \<Rightarrow>
          s\<lparr>m_jdns := cancelAll [qid] (m_jdns s),
            heap := (heap s)(a \<mapsto> it\<lparr>outstandingRequests := outstandingRequests it - {qid}\<rparr>),
            m_queryIdTypeMap := qremove qid (m_queryIdTypeMap s),
            m_queryIdItemMap := qremove qid (m_queryIdItemMap s)\<rparr>)"

text \<open>The settings and flags that only the lifecycle functions change.\<close>

definition ctl ::
  "ServiceDiscovery \<Rightarrow>
     bool \<times> bool \<times> bool \<times> bool \<times> LookupMode \<times> int \<times> ServiceDiscoveryFilter \<times> bool \<times> bool" where
  "ctl s =
     (m_componentCompleted s, m_running s, m_networkReady s, m_lookupReady s, m_lookupMode s,
      m_unicastErrorThreshold s, m_filter s, m_unicastLookupTimer s, m_jdns s = None)"

text \<open>All queries of the user, and the instances under a service type.\<close>

definition allQueries :: "ServiceDiscovery \<Rightarrow> ServiceDiscoveryQuery list" where
  "allQueries s = concat (concat (m_serviceLists s))"

definition instances :: "ServiceDiscovery \<Rightarrow> string \<Rightarrow> addr list" where
  "instances s st = qvalue [] (m_serviceItemsMap s) st"

subsection \<open>Invariants\<close>

text \<open>One entry per key in the maps that are searched by key.\<close>

definition keys_distinct :: "ServiceDiscovery \<Rightarrow> bool" where
  "keys_distinct s \<longleftrightarrow>
     distinct (map fst (m_serviceItemsMap s)) \<and> distinct (map fst (m_queryIdServiceMap s))"

text \<open>Every scan belongs to a service type of the instance table.\<close>

definition scans_known :: "ServiceDiscovery \<Rightarrow> bool" where
  "scans_known s \<longleftrightarrow>
     (\<forall>p \<in> set (m_queryIdServiceMap s). qcontains (m_serviceItemsMap s) (snd p))"

text \<open>At most one scan per service type.\<close>

definition scan_unique :: "ServiceDiscovery \<Rightarrow> bool" where
  "scan_unique s \<longleftrightarrow>
     (\<forall>p \<in> set (m_queryIdServiceMap s). \<forall>q \<in> set (m_queryIdServiceMap s).
        snd p = snd q \<longrightarrow> fst p = fst q)"

text \<open>
  Every id with a record type is the id of a scan or of a sub-query of an item, and the
  sub-queries are not PTR queries.
\<close>

definition types_bound :: "ServiceDiscovery \<Rightarrow> bool" where
  "types_bound s \<longleftrightarrow>
     (\<forall>p \<in> set (m_queryIdTypeMap s).
        qcontains (m_queryIdServiceMap s) (fst p) \<or>
        (qcontains (m_queryIdItemMap s) (fst p) \<and> snd p \<noteq> Ptr))"

text \<open>Every sub-query belongs to an item of the instance table.\<close>

definition requests_owned :: "ServiceDiscovery \<Rightarrow> bool" where
  "requests_owned s \<longleftrightarrow>
     (\<forall>p \<in> set (m_queryIdItemMap s). \<exists>e \<in> set (m_serviceItemsMap s). snd p \<in> set (snd e))"

text \<open>The ids of the registry were handed out by the present backend, which never repeats one.\<close>

definition ids_issued :: "ServiceDiscovery \<Rightarrow> bool" where
  "ids_issued s \<longleftrightarrow>
     (\<forall>src n. bk (m_jdns s) = Some (src, n) \<longrightarrow>
        inj src \<and>
        (\<forall>i. qcontains (m_queryIdTypeMap s) i \<or> qcontains (m_queryIdServiceMap s) i \<or>
             qcontains (m_queryIdItemMap s) i \<longrightarrow> (\<exists>k<n. i = src k)))"

text \<open>A service type with instances has a scan, except for the service types \<open>X\<close>.\<close>

definition items_scanned :: "string set \<Rightarrow> ServiceDiscovery \<Rightarrow> bool" where
  "items_scanned X s \<longleftrightarrow>
     (\<forall>e \<in> set (m_serviceItemsMap s).
        snd e \<noteq> [] \<longrightarrow> fst e \<in> X \<or> fst e \<in> snd ` set (m_queryIdServiceMap s))"

text \<open>The items of the instance table are allocated, each listed once.\<close>

definition heap_ok :: "ServiceDiscovery \<Rightarrow> bool" where
  "heap_ok s \<longleftrightarrow>
     (\<forall>e \<in> set (m_serviceItemsMap s).
        distinct (snd e) \<and> (\<forall>a \<in> set (snd e). a \<in> dom (heap s) \<and> a < nextAddr s)) \<and>
     (\<forall>e \<in> set (m_serviceItemsMap s). \<forall>e' \<in> set (m_serviceItemsMap s).
        fst e \<noteq> fst e' \<longrightarrow> set (snd e) \<inter> set (snd e') = {})"

text \<open>The readiness flags say whether the backend exists.\<close>

definition flags_ok :: "ServiceDiscovery \<Rightarrow> bool" where
  "flags_ok s \<longleftrightarrow>
     m_networkReady s = (m_jdns s \<noteq> None) \<and> m_lookupReady s = (m_jdns s \<noteq> None)"

text \<open>Nothing is registered and no instance is known.\<close>

definition quiescent :: "ServiceDiscovery \<Rightarrow> bool" where
  "quiescent s \<longleftrightarrow>
     m_queryIdTypeMap s = [] \<and> m_queryIdServiceMap s = [] \<and> m_queryIdItemMap s = [] \<and>
     (\<forall>e \<in> set (m_serviceItemsMap s). snd e = [])"

definition idle_ok :: "ServiceDiscovery \<Rightarrow> bool" where
  "idle_ok s \<longleftrightarrow> (m_running s \<and> m_jdns s \<noteq> None) \<or> quiescent s"

definition registry_ok :: "ServiceDiscovery \<Rightarrow> bool" where
  "registry_ok s \<longleftrightarrow>
     keys_distinct s \<and> scans_known s \<and> scan_unique s \<and> types_bound s \<and> requests_owned s \<and>
     ids_issued s"

text \<open>
  What holds between the calls of one slot as well, where a service type of \<open>X\<close> may
  for a moment have instances and no scan.
\<close>

definition core :: "string set \<Rightarrow> ServiceDiscovery \<Rightarrow> bool" where
  "core X s \<longleftrightarrow> registry_ok s \<and> heap_ok s \<and> items_scanned X s"

definition invariant :: "ServiceDiscovery \<Rightarrow> bool" where
  "invariant s \<longleftrightarrow> core {} s \<and> flags_ok s \<and> idle_ok s"

subsection \<open>Glob patterns\<close>

text \<open>
  Modelled from the spec: the patterns of \<^verbatim>\<open>QRegExp\<close> in the mode \<^verbatim>\<open>WildcardUnix\<close>.
  \<^verbatim>\<open>QRegExp\<close> is a class of Qt and not among the sources; the specification names its
  wildcards: \<open>*\<close> stands for any string, \<open>?\<close> for any character and \<open>[...]\<close> for one
  character of a set. In a set, \<open>a-z\<close> is a range, a leading \<open>^\<close> negates the set and a
  \<open>]\<close> that comes first stands for itself. Outside a set, a backslash takes the special
  meaning from a following \<open>*\<close>, \<open>?\<close>, \<open>[\<close> or backslash. Every other character stands
  for itself, letters in their own case only. A pattern with a set that is not closed
  matches nothing.
\<close>

datatype wild = Lit char | AnyChar | AnyString | Bracket bool "(char \<times> char) list"

fun wildcards :: "string \<Rightarrow> wild list option"
  and bracket :: "bool \<Rightarrow> (char \<times> char) list \<Rightarrow> string \<Rightarrow> wild list option" where
  "wildcards [] = Some []"
| "wildcards (c # cs) =
     (if c = CHR ''*'' then map_option (Cons AnyString) (wildcards cs)
      else if c = CHR ''?'' then map_option (Cons AnyChar) (wildcards cs)
      else if c = CHR ''['' then
        (if cs \<noteq> [] \<and> hd cs = CHR ''^'' then bracket True [] (tl cs) else bracket False [] cs)
      else if c = CHR 0x5C \<and> cs \<noteq> [] \<and> hd cs \<in> {CHR ''*'', CHR ''?'', CHR ''['', CHR 0x5C}
      then map_option (Cons (Lit (hd cs))) (wildcards (tl cs))
      else map_option (Cons (Lit c)) (wildcards cs))"
| "bracket neg rs [] = None"
| "bracket neg rs (c # cs) =
     (if c = CHR '']'' \<and> rs \<noteq> [] then map_option (Cons (Bracket neg (rev rs))) (wildcards cs)
      else if 2 \<le> length cs \<and> hd cs = CHR ''-'' \<and> hd (tl cs) \<noteq> CHR '']''
      then bracket neg ((c, hd (tl cs)) # rs) (tl (tl cs))
      else bracket neg ((c, c) # rs) cs)"

fun wmatch :: "wild list \<Rightarrow> string \<Rightarrow> bool" where
  "wmatch [] str = (str = [])"
| "wmatch (AnyString # ws) [] = wmatch ws []"
| "wmatch (AnyString # ws) (x # xs) = (wmatch ws (x # xs) \<or> wmatch (AnyString # ws) xs)"
| "wmatch (w # ws) [] = False"
| "wmatch (Lit c # ws) (x # xs) = (x = c \<and> wmatch ws xs)"
| "wmatch (AnyChar # ws) (x # xs) = wmatch ws xs"
| "wmatch (Bracket neg rs # ws) (x # xs) =
     ((list_ex (\<lambda>(a, b). a \<le> x \<and> x \<le> b) rs \<noteq> neg) \<and> wmatch ws xs)"

text \<open>
  \<open>glob p str\<close>: the whole of \<open>str\<close> matches the pattern \<open>p\<close>, which is what "\<open>str\<close>
  matches the glob \<open>p\<close>" says. \<open>containsWildcard\<close> is the matcher of the code,
  \<^verbatim>\<open>str.contains(QRegExp(p, Qt::CaseSensitive, QRegExp::WildcardUnix))\<close>: \<^verbatim>\<open>contains\<close>
  searches \<open>str\<close> for a match of the expression, which some part of \<open>str\<close>, from any
  position to any later one, may be.
\<close>

definition glob :: "string \<Rightarrow> string \<Rightarrow> bool" where
  "glob p str = (case wildcards p of None \<Rightarrow> False | Some ws \<Rightarrow> wmatch ws str)"

definition containsWildcard :: matcher where
  "containsWildcard p str = list_ex (glob p) (concat (map prefixes (suffixes str)))"

subsection \<open>The specification's wording of some operations\<close>

text \<open>
  The filter predicate as the specification words it: the name pattern is empty or the
  name of the instance matches the glob, and the TXT patterns, applied from left to right
  as successive glob filters on the TXT records, leave a non-empty list (or there are
  none).
\<close>

definition matches :: "ServiceDiscoveryItem \<Rightarrow> ServiceDiscoveryFilter \<Rightarrow> bool" where
  "matches instance flt \<longleftrightarrow>
     (filterName flt = [] \<or> glob (filterName flt) (itemName instance)) \<and>
     (filterTxtRecords flt = [] \<or>
      foldl (\<lambda>txts pattern. filter (glob pattern) txts) (txtRecords instance) (filterTxtRecords flt) \<noteq> [])"

text \<open>
  The handling of a PTR answer once the instance name \<open>nm\<close> and the service type \<open>st\<close>
  are known: look the instance up or create it and start its TXT and SRV sub-queries
  when the ttl is positive, remove it otherwise.
\<close>

definition handlePtr ::
  "matcher \<Rightarrow> string \<Rightarrow> string \<Rightarrow> Record \<Rightarrow> ServiceDiscovery
     \<Rightarrow> (addr option \<times> ServiceDiscovery) option" where
  "handlePtr rx nm st r s =
     (if rTtl r > 0 then do {
        (item, s1) \<leftarrow> addItem nm st s;
        s2 \<leftarrow> startItemQuery (rName r) Txt item s1;
        s3 \<leftarrow> startItemQuery (rName r) Srv item s2;
        Some (item, s3)
      } else do {
        s1 \<leftarrow> removeItem rx nm st s;
        Some (None, s1)
      })"

text \<open>
  The purge pass on one instance: an instance that has not been updated is purged when
  its incremented error count exceeds the threshold; an instance that stays has its error
  count incremented if it has not been updated, and its \<open>updated\<close> flag cleared if it has.
  \<open>purgedHeap\<close> is the heap after the pass over the instances \<open>todo\<close>.
\<close>

definition purged :: "ServiceDiscovery \<Rightarrow> addr \<Rightarrow> bool" where
  "purged s a =
     (case heap s a of
        None \<Rightarrow> False
      | Some it \<Rightarrow> \<not> updated it \<and> errorCount it + 1 > m_unicastErrorThreshold s)"

definition aged :: "ServiceDiscoveryItem \<Rightarrow> ServiceDiscoveryItem" where
  "aged it = (if updated it then it\<lparr>updated := False\<rparr> else it\<lparr>errorCount := errorCount it + 1\<rparr>)"

definition purgedHeap :: "ServiceDiscovery \<Rightarrow> addr list \<Rightarrow> addr \<Rightarrow> ServiceDiscoveryItem option" where
  "purgedHeap s todo a =
     (if a \<in> set todo then (if purged s a then None else map_option aged (heap s a))
      else heap s a)"

text \<open>
  The projection to a user query: all instances under its service type for an A query,
  those that pass the engine's filter and the query's filter otherwise.
\<close>

definition passes :: "matcher \<Rightarrow> ServiceDiscovery \<Rightarrow> ServiceDiscoveryQuery \<Rightarrow> addr \<Rightarrow> bool" where
  "passes rx s query a =
     (case heap s a of
        None \<Rightarrow> False
      | Some it \<Rightarrow>
          filterServiceDiscoveryItem rx it (m_filter s) \<and>
          filterServiceDiscoveryItem rx it (queryFilter query))"

definition projection :: "matcher \<Rightarrow> ServiceDiscovery \<Rightarrow> ServiceDiscoveryQuery \<Rightarrow> addr list" where
  "projection rx s query =
     (if queryType query = A then instances s (serviceType query)
      else filter (passes rx s query) (instances s (serviceType query)))"

definition refreshed ::
  "matcher \<Rightarrow> ServiceDiscovery \<Rightarrow> string \<Rightarrow> ServiceDiscoveryQuery \<Rightarrow> ServiceDiscoveryQuery" where
  "refreshed rx s st query =
     (if serviceType query = st then query\<lparr>items := projection rx s query\<rparr> else query)"

subsection \<open>Observations and example states\<close>

text \<open>
  A matcher for patterns without wildcard characters, for which the regular expression
  is the literal text and \<^verbatim>\<open>contains\<close> is the substring test.
\<close>

definition literalContains :: matcher where
  "literalContains p str = (indexOf str p \<ge> 0)"

text \<open>
  The queries the backend was asked to start and to cancel; the items the user's queries
  show.
\<close>

definition startedQueries :: "ServiceDiscovery \<Rightarrow> (int \<times> string \<times> qtype) list" where
  "startedQueries s = (case m_jdns s of None \<Rightarrow> [] | Some j \<Rightarrow> started j)"

definition cancelledQueries :: "ServiceDiscovery \<Rightarrow> int list" where
  "cancelledQueries s = (case m_jdns s of None \<Rightarrow> [] | Some j \<Rightarrow> cancelled j)"

definition visibleItems :: "ServiceDiscovery \<Rightarrow> addr list" where
  "visibleItems s = concat (map items (allQueries s))"

definition unresolved :: "ServiceDiscovery \<Rightarrow> addr \<Rightarrow> bool" where
  "unresolved s a = (case heap s a of None \<Rightarrow> False | Some it \<Rightarrow> outstandingRequests it \<noteq> {})"

definition unresolvedVisible :: "ServiceDiscovery \<Rightarrow> addr list" where
  "unresolvedVisible s = filter (unresolved s) (visibleItems s)"

text \<open>
  One user query for \<open>_h._tcp\<close>; the engine is set running and the network session opens
  (\<open>discovering\<close>), which leaves it scanning; the first PTR answer for the instance \<open>x\<close>
  leaves it resolving.
\<close>

definition httpQuery :: ServiceDiscoveryQuery where
  "httpQuery = \<lparr>serviceType = ''_h._tcp'', queryType = Ptr,
      queryFilter = \<lparr>filterName = [], filterTxtRecords = []\<rparr>, items = []\<rparr>"

definition answer :: "string \<Rightarrow> int \<Rightarrow> Record" where
  "answer nm t = \<lparr>rName = nm, rTtl = t, rTexts = [], rPort = 0, rAddress = []\<rparr>"

definition discovering :: "event list" where
  "discovering = [EditServiceLists [[[httpQuery]]], SetRunning True, NetworkSessionOpened int True]"

definition scanning :: ServiceDiscovery where
  "scanning =
     \<lparr>m_componentCompleted = False, m_running = True, m_networkReady = True,
      m_lookupReady = True, m_lookupMode = MulticastDNS, m_unicastErrorThreshold = 2,
      m_filter = \<lparr>filterName = [], filterTxtRecords = []\<rparr>, m_serviceLists = [[[httpQuery]]],
      m_jdns = Some \<lparr>idSource = int, started = [(0, ''_h._tcp'', Ptr)], cancelled = []\<rparr>,
      m_unicastLookupTimer = False, m_serviceItemsMap = [(''_h._tcp'', [])],
      m_serviceTypeMap = [(''_h._tcp'', Ptr)], m_queryIdTypeMap = [(0, Ptr)],
      m_queryIdServiceMap = [(0, ''_h._tcp'')], m_queryIdItemMap = [], heap = Map.empty,
      nextAddr = 0\<rparr>"

definition resolving :: ServiceDiscovery where
  "resolving =
     \<lparr>m_componentCompleted = False, m_running = True, m_networkReady = True,
      m_lookupReady = True, m_lookupMode = MulticastDNS, m_unicastErrorThreshold = 2,
      m_filter = \<lparr>filterName = [], filterTxtRecords = []\<rparr>, m_serviceLists = [[[httpQuery]]],
      m_jdns = Some \<lparr>idSource = int,
                     started = [(0, ''_h._tcp'', Ptr), (1, ''x._h._tcp'', Txt), (2, ''x._h._tcp'', Srv)],
                     cancelled = []\<rparr>,
      m_unicastLookupTimer = False, m_serviceItemsMap = [(''_h._tcp'', [0])],
      m_serviceTypeMap = [(''_h._tcp'', Ptr)],
      m_queryIdTypeMap = [(0, Ptr), (1, Txt), (2, Srv)],
      m_queryIdServiceMap = [(0, ''_h._tcp'')], m_queryIdItemMap = [(1, 0), (2, 0)],
      heap = [0 \<mapsto> newServiceDiscoveryItem\<lparr>itemName := ''x'', itemType := ''_h._tcp'',
                                               outstandingRequests := {1, 2}\<rparr>],
      nextAddr = 1\<rparr>"

text \<open>
  A unicast engine between two refreshes of \<open>_h._tcp\<close>: the instance \<open>x\<close> has answered
  the last refresh, \<open>y\<close> has missed two refreshes and \<open>z\<close> none.
\<close>

definition aging :: ServiceDiscovery where
  "aging =
     \<lparr>m_componentCompleted = False, m_running = True, m_networkReady = True,
      m_lookupReady = True, m_lookupMode = UnicastDNS, m_unicastErrorThreshold = 2,
      m_filter = \<lparr>filterName = [], filterTxtRecords = []\<rparr>, m_serviceLists = [[[httpQuery]]],
      m_jdns = Some \<lparr>idSource = int, started = [(0, ''_h._tcp'', Ptr)], cancelled = []\<rparr>,
      m_unicastLookupTimer = True, m_serviceItemsMap = [(''_h._tcp'', [0, 1, 2])],
      m_serviceTypeMap = [(''_h._tcp'', Ptr)], m_queryIdTypeMap = [(0, Ptr)],
      m_queryIdServiceMap = [(0, ''_h._tcp'')], m_queryIdItemMap = [],
      heap = [0 \<mapsto> newServiceDiscoveryItem\<lparr>itemName := ''x'', itemType := ''_h._tcp'',
                                               updated := True\<rparr>,
              1 \<mapsto> newServiceDiscoveryItem\<lparr>itemName := ''y'', itemType := ''_h._tcp'',
                                               errorCount := 2\<rparr>,
              2 \<mapsto> newServiceDiscoveryItem\<lparr>itemName := ''z'', itemType := ''_h._tcp''\<rparr>],
      nextAddr = 3\<rparr>"

section \<open>Proofs\<close>

subsection \<open>Maps, backend calls and the sub-queries of an item\<close>

text \<open>
  The association lists that stand for the \<^verbatim>\<open>QMap\<close>s: their entries and keys after a
  removal and an insertion.
\<close>

lemma set_qremove: "set (qremove k m) = {p \<in> set m. fst p \<noteq> k}"
  by (auto simp: qremove_def)

lemma set_qinsert: "set (qinsert k v m) = insert (k, v) {p \<in> set m. fst p \<noteq> k}"
  by (auto simp: qinsert_def)

lemma distinct_keys_qremove: "distinct (map fst m) \<Longrightarrow> distinct (map fst (qremove k m))"
  by (simp add: qremove_def distinct_map_filter)

lemma distinct_keys_qinsert: "distinct (map fst m) \<Longrightarrow> distinct (map fst (qinsert k v m))"
  by (auto simp: qinsert_def distinct_map_filter)

lemma keys_qinsert: "fst ` set (qinsert k v m) = insert k (fst ` set m)"
  by (auto simp: set_qinsert image_iff) 

lemma keys_qremove: "fst ` set (qremove k m) = fst ` set m - {k}"
  by (auto simp: set_qremove image_iff)

lemma qvalue_in: "distinct (map fst m) \<Longrightarrow> qcontains m k \<Longrightarrow> (k, qvalue d m k) \<in> set m"
  by (auto simp: qcontains_def qvalue_def split: option.splits simp: map_of_eq_None_iff)

lemma qvalue_eq: "distinct (map fst m) \<Longrightarrow> (k, v) \<in> set m \<Longrightarrow> qvalue d m k = v"
  by (simp add: qvalue_def)

lemma findQuery_Some: "findQuery st m = Some i \<Longrightarrow> (i, st) \<in> set m"
  by (induction st m rule: findQuery.induct) (auto split: if_splits)

lemma findQuery_None: "findQuery st m = None \<longleftrightarrow> st \<notin> snd ` set m"
  by (induction st m rule: findQuery.induct) (auto split: if_splits)

lemma jdns_queryCancel_effect:
  "jdns_queryCancel i s = Some s' \<longleftrightarrow>
     (\<exists>j. m_jdns s = Some j \<and> s' = s\<lparr>m_jdns := Some (j\<lparr>cancelled := cancelled j @ [i]\<rparr>)\<rparr>)"
  by (auto simp: jdns_queryCancel_def split: option.splits)

lemma jdns_queryStart_effect:
  "jdns_queryStart nm ty s = Some (i, s') \<longleftrightarrow>
     (\<exists>j. m_jdns s = Some j \<and> i = idSource j (length (started j)) \<and>
          s' = s\<lparr>m_jdns := Some (j\<lparr>started := started j @ [(i, nm, ty)]\<rparr>)\<rparr>)"
  by (auto simp: jdns_queryStart_def Let_def split: option.splits)

lemma item_modify_effect:
  "item_modify p f s = Some s' \<longleftrightarrow>
     (\<exists>a it. p = Some a \<and> heap s a = Some it \<and> s' = s\<lparr>heap := (heap s)(a \<mapsto> f it)\<rparr>)"
  by (auto simp: item_modify_def split: option.splits)

lemma requestsOf_Cons:
  "requestsOf X ((k, v) # m) = (if v \<in> X then insert k (requestsOf X m) else requestsOf X m)"
  by (force simp: requestsOf_def)

lemma requestsOf_Nil [simp]: "requestsOf X [] = {}"
  by (simp add: requestsOf_def)

lemma requestsOf_empty [simp]: "requestsOf {} m = {}"
  by (simp add: requestsOf_def)

lemma dropRequests_empty [simp]: "dropRequests {} m = m"
  by (simp add: dropRequests_def)

lemma dropRequests_qremove:
  "dropRequests K (qremove k m) = dropRequests (insert k K) m"
  by (auto simp: dropRequests_def qremove_def intro: filter_cong)

lemma dropRequests_compose:
  "dropRequests (requestsOf Y (dropRequests (requestsOf X m) m)) (dropRequests (requestsOf X m) m')
     = dropRequests (requestsOf (X \<union> Y) m) m'"
  unfolding dropRequests_def filter_filter
  by (rule filter_cong) (force simp: requestsOf_def)+

lemma set_dropRequests: "set (dropRequests K m) = {p \<in> set m. fst p \<notin> K}"
  by (auto simp: dropRequests_def)

lemma distinct_keys_dropRequests:
  "distinct (map fst m) \<Longrightarrow> distinct (map fst (dropRequests K m))"
  by (simp add: dropRequests_def distinct_map_filter)


lemma bk_cancelAll [simp]: "bk (cancelAll ids J) = bk J"
  by (cases J) (simp_all add: bk_def cancelAll_def)

lemma cancelAll_None [simp]: "cancelAll ids J = None \<longleftrightarrow> J = None"
  by (simp add: cancelAll_def)

lemma cancelAll_Nil [simp]: "cancelAll [] J = J"
  by (cases J) (simp_all add: cancelAll_def)

lemma cancelAll_cancelAll [simp]: "cancelAll ids' (cancelAll ids J) = cancelAll (ids @ ids') J"
  by (cases J) (simp_all add: cancelAll_def)

lemma dropRequests_compose1:
  "dropRequests (requestsOf Y (dropRequests (requestsOf {a} m) m)) (dropRequests (requestsOf {a} m) m')
     = dropRequests (requestsOf (insert a Y) m) m'"
  using dropRequests_compose[of Y "{a}" m m'] by simp

lemma requestsOf_compose1:
  "requestsOf {a} m \<union> requestsOf Y (dropRequests (requestsOf {a} m) m) = requestsOf (insert a Y) m"
  by (force simp: requestsOf_def set_dropRequests)

lemma stopped_empty [simp]: "stopped {} [] s = s"
  by (simp add: stopped_def)

lemma stopped_fields [simp]:
  "m_componentCompleted (stopped X ids s) = m_componentCompleted s"
  "m_running (stopped X ids s) = m_running s"
  "m_networkReady (stopped X ids s) = m_networkReady s"
  "m_lookupReady (stopped X ids s) = m_lookupReady s"
  "m_lookupMode (stopped X ids s) = m_lookupMode s"
  "m_unicastErrorThreshold (stopped X ids s) = m_unicastErrorThreshold s"
  "m_filter (stopped X ids s) = m_filter s"
  "m_serviceLists (stopped X ids s) = m_serviceLists s"
  "m_jdns (stopped X ids s) = cancelAll ids (m_jdns s)"
  "m_unicastLookupTimer (stopped X ids s) = m_unicastLookupTimer s"
  "m_serviceItemsMap (stopped X ids s) = m_serviceItemsMap s"
  "m_serviceTypeMap (stopped X ids s) = m_serviceTypeMap s"
  "m_queryIdTypeMap (stopped X ids s) =
     dropRequests (requestsOf X (m_queryIdItemMap s)) (m_queryIdTypeMap s)"
  "m_queryIdServiceMap (stopped X ids s) = m_queryIdServiceMap s"
  "m_queryIdItemMap (stopped X ids s) =
     dropRequests (requestsOf X (m_queryIdItemMap s)) (m_queryIdItemMap s)"
  "heap (stopped X ids s) = heap s"
  "nextAddr (stopped X ids s) = nextAddr s"
  by (simp_all add: stopped_def)

lemma deleteLater_fields [simp]:
  "m_componentCompleted (deleteLater a s) = m_componentCompleted s"
  "m_running (deleteLater a s) = m_running s"
  "m_networkReady (deleteLater a s) = m_networkReady s"
  "m_lookupReady (deleteLater a s) = m_lookupReady s"
  "m_lookupMode (deleteLater a s) = m_lookupMode s"
  "m_unicastErrorThreshold (deleteLater a s) = m_unicastErrorThreshold s"
  "m_filter (deleteLater a s) = m_filter s"
  "m_serviceLists (deleteLater a s) = m_serviceLists s"
  "m_jdns (deleteLater a s) = m_jdns s"
  "m_unicastLookupTimer (deleteLater a s) = m_unicastLookupTimer s"
  "m_serviceItemsMap (deleteLater a s) = m_serviceItemsMap s"
  "m_serviceTypeMap (deleteLater a s) = m_serviceTypeMap s"
  "m_queryIdTypeMap (deleteLater a s) = m_queryIdTypeMap s"
  "m_queryIdServiceMap (deleteLater a s) = m_queryIdServiceMap s"
  "m_queryIdItemMap (deleteLater a s) = m_queryIdItemMap s"
  "heap (deleteLater a s) = (heap s)(a := None)"
  "nextAddr (deleteLater a s) = nextAddr s"
  by (simp_all add: deleteLater_def)

lemma stopped_stopped1:
  "stopped Y ids' (stopped {a} ids s) = stopped (insert a Y) (ids @ ids') s"
  by (simp add: stopped_def dropRequests_compose1)

lemma stopped_update_commute:
  "stopped X ids (s\<lparr>heap := h\<rparr>) = (stopped X ids s)\<lparr>heap := h\<rparr>"
  by (simp add: stopped_def)

text \<open>
  \<^verbatim>\<open>stopItemQueries\<close> asks the backend to cancel the sub-queries of one item and removes
  their ids from the registry: it leaves the state \<open>stopped\<close>.
\<close>

lemma stopItemQueries_loop_effect:
  "stopItemQueries_loop a es s = Some s' \<Longrightarrow>
     \<exists>ids. set ids = requestsOf {a} es \<and>
         s' = s\<lparr>m_jdns := cancelAll ids (m_jdns s),
                m_queryIdItemMap := dropRequests (requestsOf {a} es) (m_queryIdItemMap s),
                m_queryIdTypeMap := dropRequests (requestsOf {a} es) (m_queryIdTypeMap s)\<rparr>"
proof (induction a es s arbitrary: s' rule: stopItemQueries_loop.induct)
  case (1 item s)
  then show ?case by (intro exI[of _ "[]"]) simp
next
  case (2 item queryId v rest s)
  show ?case
  proof (cases "v = item")
    case True
    with 2(3) obtain j where j: "m_jdns s = Some j" 
      and r: "stopItemQueries_loop item rest
          (s\<lparr>m_jdns := Some (j\<lparr>cancelled := cancelled j @ [queryId]\<rparr>),
              m_queryIdItemMap := qremove queryId (m_queryIdItemMap s),
               m_queryIdTypeMap := qremove queryId (m_queryIdTypeMap s)\<rparr>) = Some s'"
      by (auto simp: jdns_queryCancel_effect split: Option.bind_splits)
    define s0 where "s0 = s\<lparr>m_jdns := Some (j\<lparr>cancelled := cancelled j @ [queryId]\<rparr>)\<rparr>"
    have c: "jdns_queryCancel queryId s = Some s0"
      using j by (simp add: jdns_queryCancel_effect s0_def)
    from r have r': "stopItemQueries_loop item rest
          (s0\<lparr>m_queryIdItemMap := qremove queryId (m_queryIdItemMap s0),
               m_queryIdTypeMap := qremove queryId (m_queryIdTypeMap s0)\<rparr>) = Some s'"
      by (simp add: s0_def)
    define s1 where "s1 = s0\<lparr>m_queryIdItemMap := qremove queryId (m_queryIdItemMap s0),
               m_queryIdTypeMap := qremove queryId (m_queryIdTypeMap s0)\<rparr>"
    from 2(1)[OF True c r']
    obtain ids where ids: "set ids = requestsOf {item} rest \<and>
       s' = s1\<lparr>m_jdns := cancelAll ids (m_jdns s1),
                m_queryIdItemMap := dropRequests (requestsOf {item} rest) (m_queryIdItemMap s1),
                m_queryIdTypeMap := dropRequests (requestsOf {item} rest) (m_queryIdTypeMap s1)\<rparr>"
      unfolding s1_def ..
    show ?thesis
      apply (rule exI[of _ "queryId # ids"])
      using ids j True 
      by (simp add: s1_def s0_def requestsOf_Cons dropRequests_qremove cancelAll_def)
  next
    case False
    from False 2(2)[OF False] 2(3) show ?thesis by (simp add: requestsOf_Cons)
  qed
qed

lemma stopItemQueries_effect:
  "stopItemQueries a s = Some s' \<Longrightarrow>
     \<exists>ids. set ids = requestsOf {a} (m_queryIdItemMap s) \<and> s' = stopped {a} ids s"
  unfolding stopItemQueries_def stopped_def by (rule stopItemQueries_loop_effect)

lemma stopItemQueries_loop_total:
  "m_jdns s \<noteq> None \<or> requestsOf {a} es = {} \<Longrightarrow> \<exists>s'. stopItemQueries_loop a es s = Some s'"
proof (induction a es s rule: stopItemQueries_loop.induct)
  case (1 item s)
  then show ?case by simp
next
  case (2 item queryId v rest s)
  show ?case
  proof (cases "v = item")
    case True
    with 2(3) obtain j where j: "m_jdns s = Some j" by (auto simp: requestsOf_Cons)
    then have c: "jdns_queryCancel queryId s = Some (s\<lparr>m_jdns := Some (j\<lparr>cancelled := cancelled j @ [queryId]\<rparr>)\<rparr>)"
      by (simp add: jdns_queryCancel_effect)
    from 2(1)[OF True c] show ?thesis using True c by simp
  next
    case False
    from 2(2)[OF False] 2(3) False show ?thesis by (simp add: requestsOf_Cons)
  qed
qed

lemma stopItemQueries_total:
  "m_jdns s \<noteq> None \<or> requestsOf {a} (m_queryIdItemMap s) = {} \<Longrightarrow> \<exists>s'. stopItemQueries a s = Some s'"
  unfolding stopItemQueries_def by (rule stopItemQueries_loop_total)

lemma clearItems_loop_effect:
  "clearItems_loop xs s = Some s' \<Longrightarrow>
     \<exists>ids. set ids = requestsOf (set xs) (m_queryIdItemMap s) \<and>
         s' = (stopped (set xs) ids s)\<lparr>heap := heap s |` (- set xs)\<rparr>"
proof (induction xs arbitrary: s s')
  case Nil
  then show ?case by (intro exI[of _ "[]"]) simp
next
  case (Cons a xs)
  from Cons.prems obtain s1 where s1: "stopItemQueries a s = Some s1"
    and r: "clearItems_loop xs (deleteLater a s1) = Some s'"
    by (auto split: option.splits)
  from stopItemQueries_effect[OF s1] obtain ids1 where
    J1: "set ids1 = requestsOf {a} (m_queryIdItemMap s) \<and> s1 = stopped {a} ids1 s" ..
  then have e1: "s1 = stopped {a} ids1 s" by simp
  from Cons.IH[OF r] obtain ids where
    J: "set ids = requestsOf (set xs) (m_queryIdItemMap (deleteLater a s1)) \<and>
         s' = (stopped (set xs) ids (deleteLater a s1))\<lparr>heap := heap (deleteLater a s1) |` (- set xs)\<rparr>" ..
  have h: "heap (deleteLater a s1) |` (- set xs) = heap s |` (- set (a # xs))"
    unfolding deleteLater_def e1 by (auto simp: restrict_map_def)
  have d: "deleteLater a s1 = (stopped {a} ids1 s)\<lparr>heap := (heap s)(a := None)\<rparr>"
    by (simp add: deleteLater_def e1)
  have e: "s' = (stopped (set (a # xs)) (ids1 @ ids) s)\<lparr>heap := heap s |` (- set (a # xs))\<rparr>"
    using J unfolding h unfolding d by (simp add: stopped_update_commute stopped_stopped1)
  have "set (ids1 @ ids) = requestsOf (set (a # xs)) (m_queryIdItemMap s)"
    using J J1 by (simp add: requestsOf_compose1)
  with e show ?case by (intro exI[of _ "ids1 @ ids"]) simp
qed

lemma updateServiceType_effect:
  "updateServiceType rx st s = Some s' \<Longrightarrow> \<exists>l. s' = s\<lparr>m_serviceLists := l\<rparr>"
  by (auto simp: updateServiceType_def split: if_splits option.splits
        intro: exI[of _ "m_serviceLists s"])


lemmas inv_defs = keys_distinct_def scans_known_def scan_unique_def types_bound_def
  requests_owned_def ids_issued_def items_scanned_def

lemma inv_frame_heap [simp]:
  "keys_distinct (s\<lparr>heap := h\<rparr>) = keys_distinct s"
  "scans_known (s\<lparr>heap := h\<rparr>) = scans_known s"
  "scan_unique (s\<lparr>heap := h\<rparr>) = scan_unique s"
  "types_bound (s\<lparr>heap := h\<rparr>) = types_bound s"
  "requests_owned (s\<lparr>heap := h\<rparr>) = requests_owned s"
  "ids_issued (s\<lparr>heap := h\<rparr>) = ids_issued s"
  "items_scanned X (s\<lparr>heap := h\<rparr>) = items_scanned X s"
  by (simp_all add: inv_defs)

lemma inv_frame_nextAddr [simp]:
  "keys_distinct (s\<lparr>nextAddr := n\<rparr>) = keys_distinct s"
  "scans_known (s\<lparr>nextAddr := n\<rparr>) = scans_known s"
  "scan_unique (s\<lparr>nextAddr := n\<rparr>) = scan_unique s"
  "types_bound (s\<lparr>nextAddr := n\<rparr>) = types_bound s"
  "requests_owned (s\<lparr>nextAddr := n\<rparr>) = requests_owned s"
  "ids_issued (s\<lparr>nextAddr := n\<rparr>) = ids_issued s"
  "items_scanned X (s\<lparr>nextAddr := n\<rparr>) = items_scanned X s"
  by (simp_all add: inv_defs)

lemma inv_frame_serviceLists [simp]:
  "keys_distinct (s\<lparr>m_serviceLists := l\<rparr>) = keys_distinct s"
  "scans_known (s\<lparr>m_serviceLists := l\<rparr>) = scans_known s"
  "scan_unique (s\<lparr>m_serviceLists := l\<rparr>) = scan_unique s"
  "types_bound (s\<lparr>m_serviceLists := l\<rparr>) = types_bound s"
  "requests_owned (s\<lparr>m_serviceLists := l\<rparr>) = requests_owned s"
  "ids_issued (s\<lparr>m_serviceLists := l\<rparr>) = ids_issued s"
  "items_scanned X (s\<lparr>m_serviceLists := l\<rparr>) = items_scanned X s"
  "heap_ok (s\<lparr>m_serviceLists := l\<rparr>) = heap_ok s"
  by (simp_all add: inv_defs heap_ok_def)

lemma inv_frame_serviceTypeMap [simp]:
  "keys_distinct (s\<lparr>m_serviceTypeMap := l\<rparr>) = keys_distinct s"
  "scans_known (s\<lparr>m_serviceTypeMap := l\<rparr>) = scans_known s"
  "scan_unique (s\<lparr>m_serviceTypeMap := l\<rparr>) = scan_unique s"
  "types_bound (s\<lparr>m_serviceTypeMap := l\<rparr>) = types_bound s"
  "requests_owned (s\<lparr>m_serviceTypeMap := l\<rparr>) = requests_owned s"
  "ids_issued (s\<lparr>m_serviceTypeMap := l\<rparr>) = ids_issued s"
  "items_scanned X (s\<lparr>m_serviceTypeMap := l\<rparr>) = items_scanned X s"
  "heap_ok (s\<lparr>m_serviceTypeMap := l\<rparr>) = heap_ok s"
  by (simp_all add: inv_defs heap_ok_def)

lemma inv_stopped [simp]:
  "keys_distinct (stopped X ids s) = keys_distinct s"
  "scans_known (stopped X ids s) = scans_known s"
  "scan_unique (stopped X ids s) = scan_unique s"
  "items_scanned Y (stopped X ids s) = items_scanned Y s"
  "heap_ok (stopped X ids s) = heap_ok s"
  by (simp_all add: inv_defs heap_ok_def)

lemma qcontains_dropRequests:
  "qcontains (dropRequests K m) i \<longleftrightarrow> qcontains m i \<and> i \<notin> K"
  by (force simp: qcontains_def set_dropRequests)

lemma types_bound_stopped: "types_bound s \<Longrightarrow> types_bound (stopped X ids s)"
  by (auto simp: types_bound_def set_dropRequests qcontains_dropRequests)

lemma requests_owned_stopped: "requests_owned s \<Longrightarrow> requests_owned (stopped X ids s)"
  by (auto simp: requests_owned_def set_dropRequests)

lemma ids_issued_stopped: "ids_issued s \<Longrightarrow> ids_issued (stopped X ids s)"
  by (auto simp: ids_issued_def qcontains_dropRequests)

lemma stopped_no_requests:
  "p \<in> set (m_queryIdItemMap (stopped X ids s)) \<Longrightarrow> snd p \<notin> X"
  by (force simp: set_dropRequests requestsOf_def)

lemma registry_ok_stopped: "registry_ok s \<Longrightarrow> registry_ok (stopped X ids s)"
  by (simp add: registry_ok_def types_bound_stopped requests_owned_stopped ids_issued_stopped)

subsection \<open>The instance table\<close>

lemma instances_in:
  "keys_distinct s \<Longrightarrow> qcontains (m_serviceItemsMap s) ty \<Longrightarrow>
     (ty, instances s ty) \<in> set (m_serviceItemsMap s)"
  by (simp add: keys_distinct_def instances_def qvalue_in)

lemma instances_eq:
  "keys_distinct s \<Longrightarrow> e \<in> set (m_serviceItemsMap s) \<Longrightarrow> snd e = instances s (fst e)"
  by (cases e) (simp add: keys_distinct_def instances_def qvalue_eq)

lemma findItem_Some:
  "findItem h nm xs = Some (Some i) \<Longrightarrow>
     i < length xs \<and> (\<exists>it. h (xs ! i) = Some it \<and> itemName it = nm)"
proof (induction xs arbitrary: i)
  case Nil
  then show ?case by simp
next
  case (Cons a xs)
  then show ?case
    by (cases i) (auto split: option.splits if_splits)
qed

lemma findItem_None:
  "findItem h nm xs = Some None \<Longrightarrow> \<forall>a \<in> set xs. \<exists>it. h a = Some it \<and> itemName it \<noteq> nm"
  by (induction xs) (auto split: option.splits if_splits)

lemma findItem_total: "set xs \<subseteq> dom h \<Longrightarrow> \<exists>r. findItem h nm xs = Some r"
  by (induction xs) (auto split: option.splits)

lemma keys_distinct_setList:
  "keys_distinct s \<Longrightarrow> keys_distinct (s\<lparr>m_serviceItemsMap := qinsert ty xs (m_serviceItemsMap s)\<rparr>)"
  by (simp add: keys_distinct_def distinct_keys_qinsert)

lemma qcontains_qinsert: "qcontains (qinsert k v m) k' \<longleftrightarrow> k' = k \<or> qcontains m k'"
  by (auto simp: qcontains_def keys_qinsert)

lemma qcontains_qremove: "qcontains (qremove k m) k' \<longleftrightarrow> k' \<noteq> k \<and> qcontains m k'"
  by (auto simp: qcontains_def keys_qremove)

lemma scans_known_setList:
  "scans_known s \<Longrightarrow> scans_known (s\<lparr>m_serviceItemsMap := qinsert ty xs (m_serviceItemsMap s)\<rparr>)"
  by (simp add: scans_known_def qcontains_qinsert)

lemma inv_setList [simp]:
  "scan_unique (s\<lparr>m_serviceItemsMap := M\<rparr>) = scan_unique s"
  "types_bound (s\<lparr>m_serviceItemsMap := M\<rparr>) = types_bound s"
  "ids_issued (s\<lparr>m_serviceItemsMap := M\<rparr>) = ids_issued s"
  by (simp_all add: inv_defs)

lemma requests_owned_setList:
  assumes "keys_distinct s" "requests_owned s"
    and "\<forall>p \<in> set (m_queryIdItemMap s). snd p \<in> set (instances s ty) \<longrightarrow> snd p \<in> set xs"
  shows "requests_owned (s\<lparr>m_serviceItemsMap := qinsert ty xs (m_serviceItemsMap s)\<rparr>)"
  unfolding requests_owned_def
proof
  fix p assume p: "p \<in> set (m_queryIdItemMap (s\<lparr>m_serviceItemsMap := qinsert ty xs (m_serviceItemsMap s)\<rparr>))"
  then have p': "p \<in> set (m_queryIdItemMap s)" by simp
  with assms(2) obtain e where e: "e \<in> set (m_serviceItemsMap s)" "snd p \<in> set (snd e)"
    by (auto simp: requests_owned_def)
  show "\<exists>e\<in>set (m_serviceItemsMap (s\<lparr>m_serviceItemsMap := qinsert ty xs (m_serviceItemsMap s)\<rparr>)). snd p \<in> set (snd e)"
  proof (cases "fst e = ty")
    case True
    with instances_eq[OF assms(1) e(1)] e(2) have "snd p \<in> set (instances s ty)" by simp
    with assms(3) p' have "snd p \<in> set xs" by blast
    then show ?thesis by (auto simp: set_qinsert)
  next
    case False
    with e(1) have "e \<in> set (m_serviceItemsMap (s\<lparr>m_serviceItemsMap := qinsert ty xs (m_serviceItemsMap s)\<rparr>))"
      by (simp add: set_qinsert)
    with e(2) show ?thesis by (intro bexI[of _ e])
  qed
qed

lemma items_scanned_setList:
  "items_scanned X s \<Longrightarrow> (xs \<noteq> [] \<longrightarrow> ty \<in> X \<or> ty \<in> snd ` set (m_queryIdServiceMap s)) \<Longrightarrow>
     items_scanned X (s\<lparr>m_serviceItemsMap := qinsert ty xs (m_serviceItemsMap s)\<rparr>)"
  by (auto simp: items_scanned_def set_qinsert)

lemma registry_ok_setList:
  "registry_ok s \<Longrightarrow>
   \<forall>p \<in> set (m_queryIdItemMap s). snd p \<in> set (instances s ty) \<longrightarrow> snd p \<in> set xs \<Longrightarrow>
     registry_ok (s\<lparr>m_serviceItemsMap := qinsert ty xs (m_serviceItemsMap s)\<rparr>)"
  by (simp add: registry_ok_def keys_distinct_setList scans_known_setList requests_owned_setList)

lemma heap_ok_setList:
  assumes "heap_ok s"
    and "distinct xs" "\<forall>a \<in> set xs. a \<in> dom (heap s) \<and> a < nextAddr s"
    and "\<forall>e \<in> set (m_serviceItemsMap s). fst e \<noteq> ty \<longrightarrow> set (snd e) \<inter> set xs = {}"
  shows "heap_ok (s\<lparr>m_serviceItemsMap := qinsert ty xs (m_serviceItemsMap s)\<rparr>)"
proof -
  let ?M = "qinsert ty xs (m_serviceItemsMap s)"
  have mem: "\<And>e. e \<in> set ?M \<Longrightarrow> e = (ty, xs) \<or> (e \<in> set (m_serviceItemsMap s) \<and> fst e \<noteq> ty)"
    by (auto simp: set_qinsert)
  have 1: "distinct (snd e) \<and> (\<forall>a \<in> set (snd e). a \<in> dom (heap s) \<and> a < nextAddr s)"
    if "e \<in> set ?M" for e
    using mem[OF that] assms(1,2,3) by (auto simp: heap_ok_def)
  have 2: "set (snd e) \<inter> set (snd e') = {}"
    if "e \<in> set ?M" "e' \<in> set ?M" "fst e \<noteq> fst e'" for e e'
  proof -
    from mem[OF that(1)] mem[OF that(2)] that(3)
    consider "e = (ty, xs)" "e' \<in> set (m_serviceItemsMap s)" "fst e' \<noteq> ty"
      | "e' = (ty, xs)" "e \<in> set (m_serviceItemsMap s)" "fst e \<noteq> ty"
      | "e \<in> set (m_serviceItemsMap s)" "e' \<in> set (m_serviceItemsMap s)"
      by auto
    then show ?thesis
    proof cases
      case 1
      with assms(4) show ?thesis by auto
    next
      case 2
      with assms(4) show ?thesis by auto
    next
      case 3
      with assms(1) that(3) show ?thesis by (simp add: heap_ok_def)
    qed
  qed
  show ?thesis
    unfolding heap_ok_def using 1 2 by simp
qed

lemma registry_ok_frame [simp]:
  "registry_ok (s\<lparr>heap := h\<rparr>) = registry_ok s"
  "registry_ok (s\<lparr>nextAddr := n\<rparr>) = registry_ok s"
  "registry_ok (s\<lparr>m_serviceLists := l\<rparr>) = registry_ok s"
  "registry_ok (s\<lparr>m_serviceTypeMap := tm\<rparr>) = registry_ok s"
  by (simp_all add: registry_ok_def)

lemma addItem_effect:
  assumes "addItem nm ty s = Some (p, s')"
  shows "(\<not> qcontains (m_serviceItemsMap s) ty \<and> p = None \<and> s' = s) \<or>
         (qcontains (m_serviceItemsMap s) ty \<and> (\<exists>a \<in> set (instances s ty). p = Some a) \<and> s' = s) \<or>
         (qcontains (m_serviceItemsMap s) ty \<and> p = Some (nextAddr s) \<and>
          s' = s\<lparr>heap := (heap s)(nextAddr s \<mapsto> newServiceDiscoveryItem\<lparr>itemName := nm, itemType := ty\<rparr>),
                 nextAddr := Suc (nextAddr s),
                 m_serviceItemsMap := qinsert ty (instances s ty @ [nextAddr s]) (m_serviceItemsMap s)\<rparr>)"
proof (cases "qcontains (m_serviceItemsMap s) ty")
  case False
  with assms show ?thesis by (simp add: addItem_def)
next
  case True
  show ?thesis
  proof (cases "findItem (heap s) nm (instances s ty)")
    case None
    with assms True show ?thesis by (simp add: addItem_def instances_def)
  next
    case (Some r)
    show ?thesis
    proof (cases r)
      case None
      with Some assms True show ?thesis by (simp add: addItem_def instances_def Let_def)
    next
      case (Some i)
      with \<open>findItem (heap s) nm (instances s ty) = Some r\<close> have "i < length (instances s ty)"
        using findItem_Some by blast
      then have m: "instances s ty ! i \<in> set (instances s ty)" by simp
      from Some \<open>findItem (heap s) nm (instances s ty) = Some r\<close> assms True
      have "p = Some (instances s ty ! i)" "s' = s"
        by (auto simp add: addItem_def instances_def Let_def)
      with m True show ?thesis by blast
    qed
  qed
qed



lemma removeItem_effect:
  assumes "removeItem rx nm ty s = Some s'"
  shows "s' = s \<or>
         (\<exists>i ids l. qcontains (m_serviceItemsMap s) ty \<and> i < length (instances s ty) \<and>
            set ids = requestsOf {instances s ty ! i} (m_queryIdItemMap s) \<and>
            s' = (stopped {instances s ty ! i} ids s)
                   \<lparr>heap := (heap s)(instances s ty ! i := None),
                     m_serviceItemsMap :=
                       qinsert ty (take i (instances s ty) @ drop (Suc i) (instances s ty))
                         (m_serviceItemsMap s),
                     m_serviceLists := l\<rparr>)"
proof (cases "qcontains (m_serviceItemsMap s) ty")
  case False
  with assms show ?thesis by (simp add: removeItem_def)
next
  case True
  show ?thesis
  proof (cases "findItem (heap s) nm (instances s ty)")
    case None
    with assms True show ?thesis by (simp add: removeItem_def instances_def)
  next
    case (Some r)
    show ?thesis
    proof (cases r)
      case None
      with Some assms True show ?thesis by (simp add: removeItem_def instances_def Let_def)
    next
      case (Some i)
      with \<open>findItem (heap s) nm (instances s ty) = Some r\<close> have i: "i < length (instances s ty)"
        using findItem_Some by blast
      from Some \<open>findItem (heap s) nm (instances s ty) = Some r\<close> assms True
      obtain s1 where s1: "stopItemQueries (instances s ty ! i) s = Some s1"
        and u: "updateServiceType rx ty
           ((deleteLater (instances s ty ! i) s1)\<lparr>m_serviceItemsMap :=
                              qinsert ty (take i (instances s ty) @ drop (Suc i) (instances s ty))
                                (m_serviceItemsMap (deleteLater (instances s ty ! i) s1))\<rparr>) = Some s'"
        by (auto simp: removeItem_def instances_def Let_def split: Option.bind_splits)
      from stopItemQueries_effect[OF s1] obtain ids where
        ids: "set ids = requestsOf {instances s ty ! i} (m_queryIdItemMap s) \<and>
              s1 = stopped {instances s ty ! i} ids s" ..
      from updateServiceType_effect[OF u] obtain l where
        l: "s' = ((deleteLater (instances s ty ! i) s1)\<lparr>m_serviceItemsMap :=
                              qinsert ty (take i (instances s ty) @ drop (Suc i) (instances s ty))
                                (m_serviceItemsMap (deleteLater (instances s ty ! i) s1))\<rparr>)\<lparr>m_serviceLists := l\<rparr>" ..
      have "s' = (stopped {instances s ty ! i} ids s)
                   \<lparr>heap := (heap s)(instances s ty ! i := None),
                     m_serviceItemsMap :=
                       qinsert ty (take i (instances s ty) @ drop (Suc i) (instances s ty))
                         (m_serviceItemsMap s),
                     m_serviceLists := l\<rparr>"
        using l ids by (simp add: deleteLater_def)
      moreover have "set ids = requestsOf {instances s ty ! i} (m_queryIdItemMap s)"
        using ids by simp
      ultimately show ?thesis
        using i True by (intro disjI2 exI[of _ i] exI[of _ ids] exI[of _ l]) simp
    qed
  qed
qed

subsection \<open>Clearing a service type\<close>

lemma ctl_simps [simp]:
  "ctl (s\<lparr>heap := h\<rparr>) = ctl s"
  "ctl (s\<lparr>nextAddr := n\<rparr>) = ctl s"
  "ctl (s\<lparr>m_serviceLists := l\<rparr>) = ctl s"
  "ctl (s\<lparr>m_serviceItemsMap := im\<rparr>) = ctl s"
  "ctl (s\<lparr>m_serviceTypeMap := stm\<rparr>) = ctl s"
  "ctl (s\<lparr>m_queryIdTypeMap := tm\<rparr>) = ctl s"
  "ctl (s\<lparr>m_queryIdServiceMap := sm\<rparr>) = ctl s"
  "ctl (s\<lparr>m_queryIdItemMap := qm\<rparr>) = ctl s"
  "ctl (stopped X ids s) = ctl s"
  "ctl (scanStopped i s) = ctl s"
  "ctl (deleteLater a s) = ctl s"
  by (simp_all add: ctl_def scanStopped_def)

lemma ctl_scanStarted [simp]: "ctl (scanStarted st s) = ctl s"
  by (simp add: ctl_def scanStarted_def split: option.splits)

lemma ctl_D:
  assumes "ctl s' = ctl s"
  shows "m_running s' = m_running s" "m_networkReady s' = m_networkReady s"
    "m_lookupReady s' = m_lookupReady s" "m_lookupMode s' = m_lookupMode s"
    "m_unicastErrorThreshold s' = m_unicastErrorThreshold s" "m_filter s' = m_filter s"
    "m_unicastLookupTimer s' = m_unicastLookupTimer s" "(m_jdns s' = None) = (m_jdns s = None)"
    "m_componentCompleted s' = m_componentCompleted s"
  using assms by (simp_all add: ctl_def)

lemma registry_ok_cong:
  "m_serviceItemsMap s' = m_serviceItemsMap s \<Longrightarrow> m_queryIdTypeMap s' = m_queryIdTypeMap s \<Longrightarrow>
   m_queryIdServiceMap s' = m_queryIdServiceMap s \<Longrightarrow> m_queryIdItemMap s' = m_queryIdItemMap s \<Longrightarrow>
   bk (m_jdns s') = bk (m_jdns s) \<Longrightarrow> registry_ok s' = registry_ok s"
  by (simp add: registry_ok_def inv_defs)

lemma heap_ok_cong:
  "m_serviceItemsMap s' = m_serviceItemsMap s \<Longrightarrow> heap s' = heap s \<Longrightarrow>
   nextAddr s' = nextAddr s \<Longrightarrow> heap_ok s' = heap_ok s"
  by (simp add: heap_ok_def)

lemma items_scanned_cong:
  "m_serviceItemsMap s' = m_serviceItemsMap s \<Longrightarrow>
   m_queryIdServiceMap s' = m_queryIdServiceMap s \<Longrightarrow> items_scanned X s' = items_scanned X s"
  by (simp add: items_scanned_def)

lemma items_scanned_clear:
  "items_scanned (insert ty X) s \<Longrightarrow>
     items_scanned X (s\<lparr>m_serviceItemsMap := qinsert ty [] (m_serviceItemsMap s)\<rparr>)"
  unfolding items_scanned_def by (fastforce simp: set_qinsert)

lemma items_scanned_absent:
  "items_scanned (insert ty X) s \<Longrightarrow> \<not> qcontains (m_serviceItemsMap s) ty \<Longrightarrow> items_scanned X s"
  unfolding items_scanned_def qcontains_def by fastforce

lemma dropRequests_no_requests:
  "p \<in> set (dropRequests (requestsOf X m) m) \<Longrightarrow> snd p \<notin> X"
  by (force simp: set_dropRequests requestsOf_def)

lemma clearItems_effect:
  assumes "clearItems rx ty s = Some s'"
  shows "(\<not> qcontains (m_serviceItemsMap s) ty \<and> s' = s) \<or>
         (qcontains (m_serviceItemsMap s) ty \<and>
          (\<exists>ids l. set ids = requestsOf (set (instances s ty)) (m_queryIdItemMap s) \<and>
             s' = (stopped (set (instances s ty)) ids s)
                    \<lparr>heap := heap s |` (- set (instances s ty)),
                      m_serviceItemsMap := qinsert ty [] (m_serviceItemsMap s),
                      m_serviceLists := l\<rparr>))"
proof (cases "qcontains (m_serviceItemsMap s) ty")
  case False
  with assms show ?thesis by (simp add: clearItems_def)
next
  case True
  with assms obtain s1 where s1: "clearItems_loop (rev (instances s ty)) s = Some s1"
    and u: "updateServiceType rx ty (s1\<lparr>m_serviceItemsMap := qinsert ty [] (m_serviceItemsMap s1)\<rparr>) = Some s'"
    by (auto simp: clearItems_def instances_def split: Option.bind_splits)
  from clearItems_loop_effect[OF s1] obtain ids where
    ids: "set ids = requestsOf (set (rev (instances s ty))) (m_queryIdItemMap s) \<and>
         s1 = (stopped (set (rev (instances s ty))) ids s)\<lparr>heap := heap s |` (- set (rev (instances s ty)))\<rparr>" ..
  from updateServiceType_effect[OF u] obtain l where
    l: "s' = (s1\<lparr>m_serviceItemsMap := qinsert ty [] (m_serviceItemsMap s1)\<rparr>)\<lparr>m_serviceLists := l\<rparr>" ..
  have "s' = (stopped (set (instances s ty)) ids s)
                    \<lparr>heap := heap s |` (- set (instances s ty)),
                      m_serviceItemsMap := qinsert ty [] (m_serviceItemsMap s),
                      m_serviceLists := l\<rparr>"
    using l ids by simp
  moreover have "set ids = requestsOf (set (instances s ty)) (m_queryIdItemMap s)"
    using ids by simp
  ultimately show ?thesis
    using True by (intro disjI2 conjI exI[of _ ids] exI[of _ l]) simp_all
qed

lemma heap_ok_restrict:
  assumes "heap_ok s" "\<forall>e \<in> set (m_serviceItemsMap s). set (snd e) \<inter> X = {}"
  shows "heap_ok (s\<lparr>heap := heap s |` (- X)\<rparr>)"
  using assms unfolding heap_ok_def by (simp add: restrict_map_def dom_def) blast

text \<open>
  \<^verbatim>\<open>clearItems\<close> keeps the registry and the heap in order; the cleared service type needs
  no scan any more.
\<close>

lemma clearItems_inv:
  assumes "clearItems rx ty s = Some s'"
  shows "registry_ok s \<Longrightarrow> registry_ok s'"
    and "keys_distinct s \<Longrightarrow> heap_ok s \<Longrightarrow> heap_ok s'"
    and "items_scanned (insert ty X) s \<Longrightarrow> items_scanned X s'"
    and "ctl s' = ctl s"
    and "fst ` set (m_serviceItemsMap s') = fst ` set (m_serviceItemsMap s)"
    and "m_queryIdServiceMap s' = m_queryIdServiceMap s"
    and "e \<in> set (m_serviceItemsMap s') \<Longrightarrow> fst e = ty \<Longrightarrow> snd e = []"
    and "e \<in> set (m_serviceItemsMap s') \<Longrightarrow> fst e \<noteq> ty \<Longrightarrow> e \<in> set (m_serviceItemsMap s)"
proof -
  from clearItems_effect[OF assms]
  consider "\<not> qcontains (m_serviceItemsMap s) ty" "s' = s"
    | ids l where "qcontains (m_serviceItemsMap s) ty"
        "s' = (stopped (set (instances s ty)) ids s)
                    \<lparr>heap := heap s |` (- set (instances s ty)),
                      m_serviceItemsMap := qinsert ty [] (m_serviceItemsMap s),
                      m_serviceLists := l\<rparr>"
    by blast
  note cases = this
  show "registry_ok s \<Longrightarrow> registry_ok s'"
  proof -
    assume r: "registry_ok s"
    from cases show ?thesis
    proof cases
      case 1
      with r show ?thesis by simp
    next
      case (2 ids l)
      have "registry_ok ((stopped (set (instances s ty)) ids s)
               \<lparr>m_serviceItemsMap := qinsert ty [] (m_serviceItemsMap (stopped (set (instances s ty)) ids s))\<rparr>)"
        by (rule registry_ok_setList[OF registry_ok_stopped[OF r]])
           (auto dest: dropRequests_no_requests simp: instances_def)
      moreover have "registry_ok s' = registry_ok ((stopped (set (instances s ty)) ids s)
               \<lparr>m_serviceItemsMap := qinsert ty [] (m_serviceItemsMap (stopped (set (instances s ty)) ids s))\<rparr>)"
        by (rule registry_ok_cong) (simp_all add: 2(2))
      ultimately show ?thesis by simp
    qed
  qed
  show "keys_distinct s \<Longrightarrow> heap_ok s \<Longrightarrow> heap_ok s'"
  proof -
    assume k: "keys_distinct s" and h: "heap_ok s"
    from cases show ?thesis
    proof cases
      case 1
      with h show ?thesis by simp
    next
      case (2 ids l)
      have a: "heap_ok (s\<lparr>m_serviceItemsMap := qinsert ty [] (m_serviceItemsMap s)\<rparr>)"
        by (rule heap_ok_setList[OF h]) simp_all
      have "\<forall>e \<in> set (qinsert ty [] (m_serviceItemsMap s)). set (snd e) \<inter> set (instances s ty) = {}"
      proof
        fix e assume "e \<in> set (qinsert ty [] (m_serviceItemsMap s))"
        then consider "e = (ty, [])" | "e \<in> set (m_serviceItemsMap s)" "fst e \<noteq> ty"
          by (auto simp: set_qinsert)
        then show "set (snd e) \<inter> set (instances s ty) = {}"
        proof cases
          case 1
          then show ?thesis by simp
        next
          case 2
          with h instances_in[OF k \<open>qcontains (m_serviceItemsMap s) ty\<close>] show ?thesis
            unfolding heap_ok_def by (metis fst_conv snd_conv)
        qed
      qed
      with heap_ok_restrict[OF a, of "set (instances s ty)"]
      have "heap_ok (s\<lparr>m_serviceItemsMap := qinsert ty [] (m_serviceItemsMap s), heap := heap s |` (- set (instances s ty))\<rparr>)"
        by simp
      moreover have "heap_ok s' = heap_ok (s\<lparr>m_serviceItemsMap := qinsert ty [] (m_serviceItemsMap s), heap := heap s |` (- set (instances s ty))\<rparr>)"
        by (rule heap_ok_cong) (simp_all add: 2(2))
      ultimately show ?thesis by simp
    qed
  qed
  show "items_scanned (insert ty X) s \<Longrightarrow> items_scanned X s'"
  proof -
    assume i: "items_scanned (insert ty X) s"
    from cases show ?thesis
    proof cases
      case 1
      with i show ?thesis by (simp add: items_scanned_absent)
    next
      case (2 ids l)
      have "items_scanned X s' = items_scanned X (s\<lparr>m_serviceItemsMap := qinsert ty [] (m_serviceItemsMap s)\<rparr>)"
        by (rule items_scanned_cong) (simp_all add: 2(2))
      with items_scanned_clear[OF i] show ?thesis by simp
    qed
  qed
  show "ctl s' = ctl s"
    using cases by cases simp_all
  show "fst ` set (m_serviceItemsMap s') = fst ` set (m_serviceItemsMap s)"
    using cases by cases (auto simp: keys_qinsert qcontains_def)
  show "m_queryIdServiceMap s' = m_queryIdServiceMap s"
    using cases by cases simp_all
  show "e \<in> set (m_serviceItemsMap s') \<Longrightarrow> fst e = ty \<Longrightarrow> snd e = []"
    using cases by cases (auto simp: set_qinsert qcontains_def)
  show "e \<in> set (m_serviceItemsMap s') \<Longrightarrow> fst e \<noteq> ty \<Longrightarrow> e \<in> set (m_serviceItemsMap s)"
    using cases by cases (auto simp: set_qinsert qcontains_def)
qed

subsection \<open>The purge loop\<close>

lemma purged_cong:
  "heap s' a = heap s a \<Longrightarrow> m_unicastErrorThreshold s' = m_unicastErrorThreshold s \<Longrightarrow>
     purged s' a = purged s a"
  by (simp add: purged_def split: option.splits)

lemma purgedHeap_Cons_purged:
  assumes "a \<notin> set todo" "purged s a" "\<forall>b \<in> set todo. heap s1 b = heap s b"
    "\<forall>b. b \<notin> set todo \<longrightarrow> b \<noteq> a \<longrightarrow> heap s1 b = heap s b" "heap s1 a = None"
    "m_unicastErrorThreshold s1 = m_unicastErrorThreshold s"
  shows "purgedHeap s1 todo = purgedHeap s (a # todo)"
proof
  fix b
  show "purgedHeap s1 todo b = purgedHeap s (a # todo) b"
    using assms by (cases "b = a") (auto simp: purgedHeap_def purged_def split: option.splits)
qed

lemma purgedHeap_Cons_kept:
  assumes "a \<notin> set todo" "\<not> purged s a" "heap s a = Some it"
    "\<forall>b. b \<noteq> a \<longrightarrow> heap s1 b = heap s b" "heap s1 a = Some (aged it)"
    "m_unicastErrorThreshold s1 = m_unicastErrorThreshold s"
  shows "purgedHeap s1 todo = purgedHeap s (a # todo)"
proof
  fix b
  show "purgedHeap s1 todo b = purgedHeap s (a # todo) b"
    using assms by (cases "b = a") (auto simp: purgedHeap_def purged_def split: option.splits)
qed

lemma stopped_heap: "stopped X ids (s\<lparr>heap := h\<rparr>) = (stopped X ids s)\<lparr>heap := h\<rparr>"
  by (simp add: stopped_def)

lemma purgeItems_loop_effect:
  assumes "purgeItems_loop todo kept modified s = Some (kept', modified', s')" "distinct todo"
  shows "\<exists>ids. set ids = requestsOf {a \<in> set todo. purged s a} (m_queryIdItemMap s) \<and>
           kept' = rev (filter (\<lambda>a. \<not> purged s a) todo) @ kept \<and>
           modified' = (modified \<or> (\<exists>a \<in> set todo. purged s a)) \<and>
           s' = (stopped {a \<in> set todo. purged s a} ids s)\<lparr>heap := purgedHeap s todo\<rparr>"
  using assms
proof (induction todo arbitrary: kept modified s)
  case Nil
  have "purgedHeap s [] = heap s" by (rule ext) (simp add: purgedHeap_def)
  with Nil show ?case by (intro exI[of _ "[]"]) simp
next
  case (Cons a todo)
  from Cons.prems obtain it where it: "heap s a = Some it"
    by (auto split: option.splits)
  from Cons.prems have na: "a \<notin> set todo" and dt: "distinct todo" by simp_all
  let ?D = "{b \<in> set todo. purged s b}"
  show ?case
  proof (cases "purged s a")
    case True
    then have u: "\<not> updated it" "errorCount it + 1 > m_unicastErrorThreshold s"
      using it by (simp_all add: purged_def)
    define s1 where "s1 = s\<lparr>heap := (heap s)(a \<mapsto> it\<lparr>errorCount := errorCount it + 1\<rparr>)\<rparr>"
    from Cons.prems(1) it u obtain s2 where s2: "stopItemQueries a s1 = Some s2"
      and r: "purgeItems_loop todo kept True (deleteLater a s2) = Some (kept', modified', s')"
      by (auto simp: s1_def Let_def split: option.splits)
    from stopItemQueries_effect[OF s2] obtain ids1 where
      i1: "set ids1 = requestsOf {a} (m_queryIdItemMap s1) \<and> s2 = stopped {a} ids1 s1" ..
    define s3 where "s3 = deleteLater a s2"
    have s3: "s3 = (stopped {a} ids1 s)\<lparr>heap := (heap s)(a := None)\<rparr>"
      using i1 by (simp add: s3_def s1_def deleteLater_def stopped_def)
    from Cons.IH[OF r[folded s3_def] dt] obtain ids2 where
      i2: "set ids2 = requestsOf {b \<in> set todo. purged s3 b} (m_queryIdItemMap s3) \<and>
           kept' = rev (filter (\<lambda>b. \<not> purged s3 b) todo) @ kept \<and>
           modified' = (True \<or> (\<exists>b \<in> set todo. purged s3 b)) \<and>
           s' = (stopped {b \<in> set todo. purged s3 b} ids2 s3)\<lparr>heap := purgedHeap s3 todo\<rparr>" ..
    have p: "\<And>b. b \<in> set todo \<Longrightarrow> purged s3 b = purged s b"
      using na by (intro purged_cong) (auto simp: s3)
    then have D: "{b \<in> set todo. purged s3 b} = ?D" by auto
    have F: "filter (\<lambda>b. \<not> purged s3 b) todo = filter (\<lambda>b. \<not> purged s b) todo"
      using p by (intro filter_cong) simp_all
    have H: "purgedHeap s3 todo = purgedHeap s (a # todo)"
      using na by (intro purgedHeap_Cons_purged[OF na True]) (auto simp: s3)
    have S: "{b \<in> set (a # todo). purged s b} = insert a ?D"
      using True by auto
    have e: "s' = (stopped (insert a ?D) (ids1 @ ids2) s)\<lparr>heap := purgedHeap s (a # todo)\<rparr>"
      using i2 unfolding D H by (simp add: s3 stopped_heap stopped_stopped1)
    have "set (ids1 @ ids2) = requestsOf (insert a ?D) (m_queryIdItemMap s)"
      using i1 i2 unfolding D by (simp add: s3 s1_def requestsOf_compose1)
    moreover have "kept' = rev (filter (\<lambda>a. \<not> purged s a) (a # todo)) @ kept"
      using i2 True by (simp add: F)
    moreover have "modified' = (modified \<or> (\<exists>b \<in> set (a # todo). purged s b))"
      using i2 True by simp
    ultimately show ?thesis
      using e unfolding S by (intro exI[of _ "ids1 @ ids2"]) simp
  next
    case False
    define s1 where "s1 = s\<lparr>heap := (heap s)(a \<mapsto> aged it)\<rparr>"
    from Cons.prems(1) it False
    have r: "purgeItems_loop todo (a # kept) modified s1 = Some (kept', modified', s')"
      by (auto simp: s1_def aged_def purged_def Let_def split: if_splits)
    from Cons.IH[OF r dt] obtain ids where
      i: "set ids = requestsOf {b \<in> set todo. purged s1 b} (m_queryIdItemMap s1) \<and>
           kept' = rev (filter (\<lambda>b. \<not> purged s1 b) todo) @ a # kept \<and>
           modified' = (modified \<or> (\<exists>b \<in> set todo. purged s1 b)) \<and>
           s' = (stopped {b \<in> set todo. purged s1 b} ids s1)\<lparr>heap := purgedHeap s1 todo\<rparr>" ..
    have p: "\<And>b. b \<in> set todo \<Longrightarrow> purged s1 b = purged s b"
      using na by (intro purged_cong) (auto simp: s1_def)
    then have D: "{b \<in> set todo. purged s1 b} = ?D" by auto
    have F: "filter (\<lambda>b. \<not> purged s1 b) todo = filter (\<lambda>b. \<not> purged s b) todo"
      using p by (intro filter_cong) simp_all
    have H: "purgedHeap s1 todo = purgedHeap s (a # todo)"
      using na by (intro purgedHeap_Cons_kept[OF na False it]) (auto simp: s1_def)
    have S: "{b \<in> set (a # todo). purged s b} = ?D"
      using False by auto
    have e: "s' = (stopped ?D ids s)\<lparr>heap := purgedHeap s (a # todo)\<rparr>"
      using i unfolding D H by (simp add: s1_def stopped_heap)
    have "set ids = requestsOf ?D (m_queryIdItemMap s)"
      using i unfolding D by (simp add: s1_def)
    moreover have "kept' = rev (filter (\<lambda>a. \<not> purged s a) (a # todo)) @ kept"
      using i False by (simp add: F)
    moreover have "modified' = (modified \<or> (\<exists>b \<in> set (a # todo). purged s b))"
      using i False p by auto
    ultimately show ?thesis
      using e unfolding S by (intro exI[of _ ids]) simp
  qed
qed


lemma map_of_qinsert_same: "map_of (qinsert k v m) k = Some v"
proof -
  have "map_of (filter (\<lambda>p. fst p < k) m) k = None"
    by (auto simp: map_of_eq_None_iff)
  then show ?thesis
    by (simp add: qinsert_def map_add_def)
qed

lemma qvalue_qinsert_same [simp]: "qvalue d (qinsert k v m) k = v"
  by (simp add: qvalue_def map_of_qinsert_same)

lemma forEach_total: "\<forall>x \<in> set xs. f x \<noteq> None \<Longrightarrow> \<exists>ys. forEach f xs = Some ys"
  by (induction xs) auto

lemma filterServiceDiscoveryItems_total:
  "set xs \<subseteq> dom h \<Longrightarrow> \<exists>l. filterServiceDiscoveryItems rx h xs p q = Some l"
  by (induction xs) auto

lemma updateQuery_total:
  "set xs \<subseteq> dom h \<Longrightarrow> updateQuery rx h flt st xs query \<noteq> None"
  using filterServiceDiscoveryItems_total[of xs h rx flt "queryFilter query"]
  by (auto simp: updateQuery_def)

lemma forEach_not_None: "\<forall>x \<in> set xs. f x \<noteq> None \<Longrightarrow> forEach f xs \<noteq> None"
  using forEach_total[of xs f] by auto

lemma updateServiceType_total:
  assumes "set (instances s st) \<subseteq> dom (heap s)"
  shows "\<exists>s'. updateServiceType rx st s = Some s'"
proof -
  have "forEach (forEach (forEach
          (updateQuery rx (heap s) (m_filter s) st (instances s st)))) (m_serviceLists s) \<noteq> None"
    by (intro forEach_not_None ballI) (rule updateQuery_total[OF assms])
  then show ?thesis
    by (auto simp: updateServiceType_def instances_def)
qed

lemma purgeItems_loop_total:
  "distinct todo \<Longrightarrow> set todo \<subseteq> dom (heap s) \<Longrightarrow> m_jdns s \<noteq> None \<Longrightarrow>
     \<exists>r. purgeItems_loop todo kept modified s = Some r"
proof (induction todo arbitrary: kept modified s)
  case Nil
  then show ?case by simp
next
  case (Cons a todo)
  from Cons.prems obtain it where it: "heap s a = Some it" by auto
  from Cons.prems have na: "a \<notin> set todo" and dt: "distinct todo"
    and al: "set todo \<subseteq> dom (heap s)" by simp_all
  show ?case
  proof (cases "updated it")
    case True
    have "\<exists>r. purgeItems_loop todo (a # kept) modified
                 (s\<lparr>heap := (heap s)(a \<mapsto> it\<lparr>updated := False\<rparr>)\<rparr>) = Some r"
      using al Cons.prems(3) by (intro Cons.IH[OF dt]) auto
    with it True show ?thesis by simp
  next
    case False
    define s1 where "s1 = s\<lparr>heap := (heap s)(a \<mapsto> it\<lparr>errorCount := errorCount it + 1\<rparr>)\<rparr>"
    show ?thesis
    proof (cases "errorCount it + 1 > m_unicastErrorThreshold s")
      case True
      from stopItemQueries_total[of s1 a] Cons.prems(3) obtain s2 where
        s2: "stopItemQueries a s1 = Some s2" by (auto simp: s1_def)
      from stopItemQueries_effect[OF s2] obtain ids where
        i: "set ids = requestsOf {a} (m_queryIdItemMap s1) \<and> s2 = stopped {a} ids s1" ..
      have "\<exists>r. purgeItems_loop todo kept True (deleteLater a s2) = Some r"
        using al na Cons.prems(3) i by (intro Cons.IH[OF dt]) (auto simp: s1_def)
      with it False True s2 show ?thesis by (simp add: s1_def Let_def)
    next
      case nt: False
      have "\<exists>r. purgeItems_loop todo (a # kept) modified s1 = Some r"
        using al Cons.prems(3) by (intro Cons.IH[OF dt]) (auto simp: s1_def)
      with it False nt show ?thesis by (simp add: s1_def Let_def)
    qed
  qed
qed

text \<open>
  Claim C6: in the purge pass over one service type, every instance that has not been
  updated gets its error count incremented and is removed exactly when the incremented
  count exceeds the threshold; every updated instance has the flag cleared; and
  \<open>updateServiceType\<close> is called iff at least one instance was removed.
\<close>

theorem purge_pass:
  assumes "qcontains (m_serviceItemsMap s) st" "distinct (instances s st)"
    and "set (instances s st) \<subseteq> dom (heap s)" "m_jdns s \<noteq> None"
  shows "\<exists>s' s1 kept.
           purgeItems rx st s = Some s' \<and>
           (\<forall>a \<in> set (instances s st). \<forall>it. heap s a = Some it \<longrightarrow>
              (if updated it then
                 a \<in> set (instances s' st) \<and> heap s' a = Some (it\<lparr>updated := False\<rparr>)
               else if errorCount it + 1 > m_unicastErrorThreshold s then
                 a \<notin> set (instances s' st) \<and> heap s' a = None
               else a \<in> set (instances s' st) \<and>
                    heap s' a = Some (it\<lparr>errorCount := errorCount it + 1\<rparr>))) \<and>
           purgeItems_loop (rev (instances s st)) [] False s =
             Some (kept, (\<exists>a \<in> set (instances s st). a \<notin> set (instances s' st)), s1) \<and>
           Some s' =
             (if \<exists>a \<in> set (instances s st). a \<notin> set (instances s' st)
              then updateServiceType rx st
                     (s1\<lparr>m_serviceItemsMap := qinsert st kept (m_serviceItemsMap s1)\<rparr>)
              else Some s1)"
proof -
  let ?xs = "instances s st"
  let ?D = "{a \<in> set (rev ?xs). purged s a}"
  from purgeItems_loop_total[of "rev ?xs" s "[]" False] assms obtain kept modified s1 where
    loop: "purgeItems_loop (rev ?xs) [] False s = Some (kept, modified, s1)"
    by auto
  from purgeItems_loop_effect[OF loop] assms(2) obtain ids where
    e: "set ids = requestsOf ?D (m_queryIdItemMap s) \<and>
        kept = rev (filter (\<lambda>a. \<not> purged s a) (rev ?xs)) @ [] \<and>
        modified = (False \<or> (\<exists>a \<in> set (rev ?xs). purged s a)) \<and>
        s1 = (stopped ?D ids s)\<lparr>heap := purgedHeap s (rev ?xs)\<rparr>"
    by auto
  then have kept: "kept = filter (\<lambda>a. \<not> purged s a) ?xs"
    and modified: "modified = (\<exists>a \<in> set ?xs. purged s a)"
    and s1: "s1 = (stopped ?D ids s)\<lparr>heap := purgedHeap s (rev ?xs)\<rparr>"
    by (simp_all add: rev_filter)
  have al: "set (instances (s1\<lparr>m_serviceItemsMap := qinsert st kept (m_serviceItemsMap s1)\<rparr>) st)
              \<subseteq> dom (heap (s1\<lparr>m_serviceItemsMap := qinsert st kept (m_serviceItemsMap s1)\<rparr>))"
    using assms(3) by (auto simp: instances_def s1 kept purgedHeap_def)
  from updateServiceType_total[OF al, of rx] obtain s2 where
    s2: "updateServiceType rx st (s1\<lparr>m_serviceItemsMap := qinsert st kept (m_serviceItemsMap s1)\<rparr>) = Some s2"
    by blast
  from updateServiceType_effect[OF s2] obtain l where
    l: "s2 = (s1\<lparr>m_serviceItemsMap := qinsert st kept (m_serviceItemsMap s1)\<rparr>)\<lparr>m_serviceLists := l\<rparr>" ..
  define s' where "s' = (if modified then s2 else s1)"
  have p: "purgeItems rx st s = Some s'"
    using assms(1) loop s2 by (simp add: purgeItems_def instances_def s'_def)
  have keep_all: "\<not> modified \<Longrightarrow> kept = ?xs"
    by (simp add: kept modified)
  have inst: "instances s' st = kept"
  proof (cases modified)
    case True
    then show ?thesis by (simp add: s'_def l instances_def)
  next
    case False
    then show ?thesis by (simp add: s'_def s1 instances_def keep_all)
  qed
  have hp: "heap s' = purgedHeap s (rev ?xs)"
    by (simp add: s'_def l s1)
  have removed: "(\<exists>a \<in> set ?xs. a \<notin> set (instances s' st)) = modified"
    by (auto simp: inst kept modified)
  have items: "\<forall>a \<in> set ?xs. \<forall>it. heap s a = Some it \<longrightarrow>
              (if updated it then
                 a \<in> set (instances s' st) \<and> heap s' a = Some (it\<lparr>updated := False\<rparr>)
               else if errorCount it + 1 > m_unicastErrorThreshold s then
                 a \<notin> set (instances s' st) \<and> heap s' a = None
               else a \<in> set (instances s' st) \<and>
                    heap s' a = Some (it\<lparr>errorCount := errorCount it + 1\<rparr>))"
    by (auto simp: inst hp kept purgedHeap_def purged_def aged_def)
  have last: "Some s' =
             (if \<exists>a \<in> set ?xs. a \<notin> set (instances s' st)
              then updateServiceType rx st
                     (s1\<lparr>m_serviceItemsMap := qinsert st kept (m_serviceItemsMap s1)\<rparr>)
              else Some s1)"
    unfolding removed by (simp add: s'_def s2)
  show ?thesis
    using p items loop last unfolding removed[symmetric]
    by (intro exI[of _ s'] exI[of _ s1] exI[of _ kept]) simp
qed

subsection \<open>Removing an item\<close>

lemma set_without_nth:
  "x \<in> set xs \<Longrightarrow> i < length xs \<Longrightarrow> x \<noteq> xs ! i \<Longrightarrow> x \<in> set (take i xs @ drop (Suc i) xs)"
  by (metis Un_iff id_take_nth_drop set_ConsD set_append)

lemma distinct_without_nth:
  "distinct xs \<Longrightarrow> i < length xs \<Longrightarrow>
     distinct (take i xs @ drop (Suc i) xs) \<and> xs ! i \<notin> set (take i xs @ drop (Suc i) xs) \<and>
     set (take i xs @ drop (Suc i) xs) \<subseteq> set xs"
proof -
  assume d: "distinct xs" and i: "i < length xs"
  have xs: "xs = take i xs @ xs ! i # drop (Suc i) xs"
    using i by (rule id_take_nth_drop)
  from d have "distinct (take i xs @ xs ! i # drop (Suc i) xs)"
    using xs by simp
  then have "distinct (take i xs @ drop (Suc i) xs) \<and> xs ! i \<notin> set (take i xs @ drop (Suc i) xs)"
    by auto
  moreover have "set (take i xs @ drop (Suc i) xs) \<subseteq> set xs"
    by (auto dest: in_set_takeD in_set_dropD)
  ultimately show ?thesis by simp
qed

lemma fun_upd_None_restrict: "(h :: 'a \<rightharpoonup> 'b)(a := None) = h |` (- {a})"
  by (auto simp: restrict_map_def)

lemma items_scannedD:
  assumes "items_scanned X s" "e \<in> set (m_serviceItemsMap s)" "snd e \<noteq> []"
  shows "fst e \<in> X \<or> fst e \<in> snd ` set (m_queryIdServiceMap s)"
  using assms unfolding items_scanned_def by blast

lemma heap_ok_disjoint:
  assumes "heap_ok s" "e \<in> set (m_serviceItemsMap s)" "e' \<in> set (m_serviceItemsMap s)"
    "fst e \<noteq> fst e'"
  shows "set (snd e) \<inter> set (snd e') = {}"
  using assms unfolding heap_ok_def by blast

lemma heap_ok_list:
  assumes "heap_ok s" "e \<in> set (m_serviceItemsMap s)"
  shows "distinct (snd e)" "\<And>a. a \<in> set (snd e) \<Longrightarrow> a \<in> dom (heap s) \<and> a < nextAddr s"
  using assms unfolding heap_ok_def by blast+

lemma core_frame [simp]:
  "core X (s\<lparr>m_serviceLists := l\<rparr>) = core X s"
  "core X (s\<lparr>m_serviceTypeMap := tm\<rparr>) = core X s"
  by (simp_all add: core_def)

lemma core_cong:
  "m_serviceItemsMap s' = m_serviceItemsMap s \<Longrightarrow> m_queryIdTypeMap s' = m_queryIdTypeMap s \<Longrightarrow>
   m_queryIdServiceMap s' = m_queryIdServiceMap s \<Longrightarrow> m_queryIdItemMap s' = m_queryIdItemMap s \<Longrightarrow>
   bk (m_jdns s') = bk (m_jdns s) \<Longrightarrow> heap s' = heap s \<Longrightarrow> nextAddr s' = nextAddr s \<Longrightarrow>
   core X s' = core X s"
  using registry_ok_cong[of s' s] heap_ok_cong[of s' s] items_scanned_cong[of s' s X]
  by (simp add: core_def)

lemma core_keys_distinct: "core X s \<Longrightarrow> keys_distinct s"
  by (simp add: core_def registry_ok_def)

lemma removeItem_inv:
  assumes "removeItem rx nm ty s = Some s'" "core X s"
  shows "core X s'" "ctl s' = ctl s" "m_queryIdServiceMap s' = m_queryIdServiceMap s"
    "fst ` set (m_serviceItemsMap s') = fst ` set (m_serviceItemsMap s)"
proof -
  from assms(2) have r: "registry_ok s" and h: "heap_ok s" and sc: "items_scanned X s"
    and k: "keys_distinct s"
    by (simp_all add: core_def registry_ok_def)
  let ?xs = "instances s ty"
  from removeItem_effect[OF assms(1)]
  consider "s' = s"
    | i ids l where "qcontains (m_serviceItemsMap s) ty" "i < length ?xs"
        "s' = (stopped {?xs ! i} ids s)
                   \<lparr>heap := (heap s)(?xs ! i := None),
                     m_serviceItemsMap := qinsert ty (take i ?xs @ drop (Suc i) ?xs) (m_serviceItemsMap s),
                     m_serviceLists := l\<rparr>"
    by blast
  then have "core X s' \<and> ctl s' = ctl s \<and> m_queryIdServiceMap s' = m_queryIdServiceMap s \<and>
    fst ` set (m_serviceItemsMap s') = fst ` set (m_serviceItemsMap s)"
  proof cases
    case 1
    with assms(2) show ?thesis by simp
  next
    case (2 i ids l)
    let ?ys = "take i ?xs @ drop (Suc i) ?xs"
    let ?a = "?xs ! i"
    from instances_in[OF k 2(1)] have mem: "(ty, ?xs) \<in> set (m_serviceItemsMap s)" .
    with heap_ok_list(1)[OF h] have dx: "distinct ?xs" by fastforce
    note dw = distinct_without_nth[OF dx 2(2)]
    have R: "registry_ok ((stopped {?a} ids s)\<lparr>m_serviceItemsMap := qinsert ty ?ys (m_serviceItemsMap (stopped {?a} ids s))\<rparr>)"
    proof (rule registry_ok_setList[OF registry_ok_stopped[OF r]], intro ballI impI)
      fix p assume p: "p \<in> set (m_queryIdItemMap (stopped {?a} ids s))"
        and m: "snd p \<in> set (instances (stopped {?a} ids s) ty)"
      from p have "snd p \<noteq> ?a" by (auto dest: dropRequests_no_requests)
      moreover from m have "snd p \<in> set ?xs" by (simp add: instances_def)
      ultimately show "snd p \<in> set ?ys" using 2(2) by (intro set_without_nth)
    qed
    have R': "registry_ok s'"
      using R registry_ok_cong[of s' "(stopped {?a} ids s)\<lparr>m_serviceItemsMap := qinsert ty ?ys (m_serviceItemsMap (stopped {?a} ids s))\<rparr>"]
      by (simp add: 2(3))
    have H1: "heap_ok (s\<lparr>m_serviceItemsMap := qinsert ty ?ys (m_serviceItemsMap s)\<rparr>)"
    proof (rule heap_ok_setList[OF h])
      show "distinct ?ys" using dw by simp
      show "\<forall>a\<in>set ?ys. a \<in> dom (heap s) \<and> a < nextAddr s"
      proof
        fix a assume "a \<in> set ?ys"
        with dw have "a \<in> set ?xs" by blast
        with heap_ok_list(2)[OF h mem] show "a \<in> dom (heap s) \<and> a < nextAddr s" by simp
      qed
      show "\<forall>e\<in>set (m_serviceItemsMap s). fst e \<noteq> ty \<longrightarrow> set (snd e) \<inter> set ?ys = {}"
      proof (intro ballI impI)
        fix e assume "e \<in> set (m_serviceItemsMap s)" "fst e \<noteq> ty"
        with heap_ok_disjoint[OF h _ mem] have "set (snd e) \<inter> set ?xs = {}"
          by simp
        with dw show "set (snd e) \<inter> set ?ys = {}" by blast
      qed
    qed
    have H2: "heap_ok (s\<lparr>m_serviceItemsMap := qinsert ty ?ys (m_serviceItemsMap s)\<rparr>
                 \<lparr>heap := heap (s\<lparr>m_serviceItemsMap := qinsert ty ?ys (m_serviceItemsMap s)\<rparr>) |` (- {?a})\<rparr>)"
    proof (rule heap_ok_restrict[OF H1], intro ballI)
      fix e assume "e \<in> set (m_serviceItemsMap (s\<lparr>m_serviceItemsMap := qinsert ty ?ys (m_serviceItemsMap s)\<rparr>))"
      then consider "e = (ty, ?ys)" | "e \<in> set (m_serviceItemsMap s)" "fst e \<noteq> ty"
        by (auto simp: set_qinsert)
      then show "set (snd e) \<inter> {?a} = {}"
      proof cases
        case 1
        with dw show ?thesis by simp
      next
        case 2
        with heap_ok_disjoint[OF h _ mem] have "set (snd e) \<inter> set ?xs = {}"
          by simp
        moreover have "?a \<in> set ?xs" using \<open>i < length ?xs\<close> by simp
        ultimately show ?thesis by blast
      qed
    qed
    have H': "heap_ok s'"
      using H2 heap_ok_cong[of s' "s\<lparr>m_serviceItemsMap := qinsert ty ?ys (m_serviceItemsMap s)\<rparr>
                 \<lparr>heap := heap (s\<lparr>m_serviceItemsMap := qinsert ty ?ys (m_serviceItemsMap s)\<rparr>) |` (- {?a})\<rparr>"]
      by (simp add: 2(3) fun_upd_None_restrict)
    have "?xs \<noteq> []" using 2(2) by auto
    with items_scannedD[OF sc mem] have "ty \<in> X \<or> ty \<in> snd ` set (m_queryIdServiceMap s)"
      by simp
    then have "items_scanned X (s\<lparr>m_serviceItemsMap := qinsert ty ?ys (m_serviceItemsMap s)\<rparr>)"
      by (intro items_scanned_setList[OF sc]) simp
    then have S': "items_scanned X s'"
      using items_scanned_cong[of s' "s\<lparr>m_serviceItemsMap := qinsert ty ?ys (m_serviceItemsMap s)\<rparr>" X]
      by (simp add: 2(3))
    have "fst ` set (m_serviceItemsMap s') = fst ` set (m_serviceItemsMap s)"
      using 2(1) by (auto simp: 2(3) keys_qinsert qcontains_def)
    with R' H' S' show ?thesis by (simp add: core_def 2(3))
  qed
  then show "core X s'" "ctl s' = ctl s" "m_queryIdServiceMap s' = m_queryIdServiceMap s"
    "fst ` set (m_serviceItemsMap s') = fst ` set (m_serviceItemsMap s)"
    by simp_all
qed

subsection \<open>Starting and stopping a scan\<close>

lemma startQuery_eq:
  "startQuery st s =
     (if st \<in> snd ` set (m_queryIdServiceMap s) then Some s
      else if m_jdns s = None then None else Some (scanStarted st s))"
proof (cases "findQuery st (m_queryIdServiceMap s)")
  case None
  then have "st \<notin> snd ` set (m_queryIdServiceMap s)" by (simp add: findQuery_None)
  with None show ?thesis
    by (auto simp: startQuery_def scanStarted_def jdns_queryStart_def Let_def split: option.splits)
next
  case (Some i)
  then have "st \<in> snd ` set (m_queryIdServiceMap s)"
    using findQuery_None[of st "m_queryIdServiceMap s"] by auto
  with Some show ?thesis by (simp add: startQuery_def)
qed

lemma startItemQuery_eq:
  "startItemQuery nm qt item s =
     (case item of
        None \<Rightarrow> None
      | Some a \<Rightarrow> if m_jdns s = None \<or> heap s a = None then None
                  else Some (requestStarted nm qt a s))"
  by (auto simp: startItemQuery_def requestStarted_def jdns_queryStart_def item_modify_def Let_def
        split: option.splits)

lemma finishItemQuery_eq:
  "finishItemQuery qid s =
     (case map_of (m_queryIdItemMap s) qid of
        None \<Rightarrow> None
      | Some a \<Rightarrow> if m_jdns s = None \<or> heap s a = None then None
                  else Some (Some a, requestFinished qid a s))"
  by (auto simp: finishItemQuery_def requestFinished_def jdns_queryCancel_def item_modify_def
        Let_def cancelAll_def split: option.splits)

lemma bk_Some: "bk (Some j) = Some (idSource j, length (started j))"
  by (simp add: bk_def)

lemma registry_okD:
  assumes "registry_ok s"
  shows "keys_distinct s" "scans_known s" "scan_unique s" "types_bound s" "requests_owned s"
    "ids_issued s"
  using assms by (simp_all add: registry_ok_def)

lemma fresh_id:
  assumes "ids_issued s" "m_jdns s = Some j"
  shows "\<not> qcontains (m_queryIdTypeMap s) (idSource j (length (started j)))"
    "\<not> qcontains (m_queryIdServiceMap s) (idSource j (length (started j)))"
    "\<not> qcontains (m_queryIdItemMap s) (idSource j (length (started j)))"
proof -
  from assms have inj: "inj (idSource j)"
    and old: "\<And>i. qcontains (m_queryIdTypeMap s) i \<or> qcontains (m_queryIdServiceMap s) i \<or>
             qcontains (m_queryIdItemMap s) i \<Longrightarrow> \<exists>k<length (started j). i = idSource j k"
    by (auto simp: ids_issued_def bk_def)
  have "\<not> (\<exists>k<length (started j). idSource j (length (started j)) = idSource j k)"
    using inj by (auto dest: injD)
  with old show "\<not> qcontains (m_queryIdTypeMap s) (idSource j (length (started j)))"
    "\<not> qcontains (m_queryIdServiceMap s) (idSource j (length (started j)))"
    "\<not> qcontains (m_queryIdItemMap s) (idSource j (length (started j)))"
    by blast+
qed

lemma qinsert_fresh_set: "\<not> qcontains m k \<Longrightarrow> set (qinsert k v m) = insert (k, v) (set m)"
  by (auto simp: set_qinsert qcontains_def image_iff)

lemma scanStarted_registry_ok:
  assumes r: "registry_ok s" and j: "m_jdns s \<noteq> None"
    and c: "qcontains (m_serviceItemsMap s) st" and n: "st \<notin> snd ` set (m_queryIdServiceMap s)"
  shows "registry_ok (scanStarted st s)"
proof -
  from j obtain jd where jd: "m_jdns s = Some jd" by auto
  let ?i = "idSource jd (length (started jd))"
  note f = fresh_id[OF registry_okD(6)[OF r] jd]
  note d = registry_okD[OF r]
  have e: "scanStarted st s =
      s\<lparr>m_jdns := Some (jd\<lparr>started := started jd @ [(?i, st, qvalue NoType (m_serviceTypeMap s) st)]\<rparr>),
        m_queryIdTypeMap := qinsert ?i (qvalue NoType (m_serviceTypeMap s) st) (m_queryIdTypeMap s),
        m_queryIdServiceMap := qinsert ?i st (m_queryIdServiceMap s)\<rparr>"
    by (simp add: scanStarted_def jd)
  have 1: "keys_distinct (scanStarted st s)"
    using d(1) by (simp add: e keys_distinct_def distinct_keys_qinsert)
  have 2: "scans_known (scanStarted st s)"
    using d(2) c by (auto simp: e scans_known_def set_qinsert)
  have 3: "scan_unique (scanStarted st s)"
    unfolding scan_unique_def
  proof (intro ballI impI)
    fix p q assume "p \<in> set (m_queryIdServiceMap (scanStarted st s))"
      "q \<in> set (m_queryIdServiceMap (scanStarted st s))" "snd p = snd q"
    then have p: "p = (?i, st) \<or> p \<in> set (m_queryIdServiceMap s)"
      and q: "q = (?i, st) \<or> q \<in> set (m_queryIdServiceMap s)"
      by (simp_all add: e qinsert_fresh_set f)
    from n have "\<And>x. x \<in> set (m_queryIdServiceMap s) \<Longrightarrow> snd x \<noteq> st" by blast
    with p q \<open>snd p = snd q\<close> d(3) show "fst p = fst q"
      unfolding scan_unique_def by (metis snd_conv)
  qed
  have 4: "types_bound (scanStarted st s)"
    using d(4) unfolding e types_bound_def by (auto simp: set_qinsert qcontains_qinsert)
  have 5: "requests_owned (scanStarted st s)"
    using d(5) by (simp add: e requests_owned_def)
  have 6: "ids_issued (scanStarted st s)"
    using d(6) jd unfolding e ids_issued_def
    by (auto simp: bk_Some qcontains_qinsert intro: less_SucI)
  from 1 2 3 4 5 6 show ?thesis by (simp add: registry_ok_def)
qed

lemma scanStarted_fields [simp]:
  "m_serviceItemsMap (scanStarted st s) = m_serviceItemsMap s"
  "m_queryIdItemMap (scanStarted st s) = m_queryIdItemMap s"
  "heap (scanStarted st s) = heap s"
  "nextAddr (scanStarted st s) = nextAddr s"
  "m_serviceLists (scanStarted st s) = m_serviceLists s"
  "m_serviceTypeMap (scanStarted st s) = m_serviceTypeMap s"
  by (simp_all add: scanStarted_def split: option.splits)

lemma scanStarted_values:
  assumes "ids_issued s" "m_jdns s \<noteq> None"
  shows "snd ` set (m_queryIdServiceMap (scanStarted st s)) = insert st (snd ` set (m_queryIdServiceMap s))"
proof -
  from assms(2) obtain jd where jd: "m_jdns s = Some jd" by auto
  from fresh_id(2)[OF assms(1) jd] show ?thesis
    by (simp add: scanStarted_def jd qinsert_fresh_set)
qed

lemma scanStarted_core:
  assumes "core X s" "m_jdns s \<noteq> None" "qcontains (m_serviceItemsMap s) st"
    "st \<notin> snd ` set (m_queryIdServiceMap s)"
  shows "core (X - {st}) (scanStarted st s)"
proof -
  from assms(1) have r: "registry_ok s" and h: "heap_ok s" and sc: "items_scanned X s"
    by (simp_all add: core_def)
  have "heap_ok (scanStarted st s) = heap_ok s"
    by (rule heap_ok_cong) simp_all
  moreover have "items_scanned (X - {st}) (scanStarted st s)"
    using sc scanStarted_values[OF registry_okD(6)[OF r] assms(2), of st]
    unfolding items_scanned_def by auto
  ultimately show ?thesis
    using scanStarted_registry_ok[OF r assms(2,3,4)] h by (simp add: core_def)
qed

lemma items_scanned_mono: "items_scanned X s \<Longrightarrow> X \<subseteq> Y \<Longrightarrow> items_scanned Y s"
  unfolding items_scanned_def by blast

lemma core_mono: "core X s \<Longrightarrow> X \<subseteq> Y \<Longrightarrow> core Y s"
  by (auto simp: core_def intro: items_scanned_mono)

text \<open>
  A new scan gets an id that the registry does not hold, since the backend never repeats
  an id.
\<close>

lemma startQuery_inv:
  assumes "startQuery st s = Some s'" "core X s" "qcontains (m_serviceItemsMap s) st"
  shows "core (X - {st}) s'" "ctl s' = ctl s"
    "m_serviceItemsMap s' = m_serviceItemsMap s" "m_serviceLists s' = m_serviceLists s"
    "st \<in> snd ` set (m_queryIdServiceMap s')"
    "snd ` set (m_queryIdServiceMap s) \<subseteq> snd ` set (m_queryIdServiceMap s')"
proof -
  show "core (X - {st}) s'"
  proof (cases "st \<in> snd ` set (m_queryIdServiceMap s)")
    case True
    with assms(1) have "s' = s" by (simp add: startQuery_eq)
    moreover from assms(2) True have "core (X - {st}) s"
      unfolding core_def items_scanned_def by auto
    ultimately show ?thesis by simp
  next
    case False
    with assms(1) have "m_jdns s \<noteq> None" "s' = scanStarted st s"
      by (auto simp: startQuery_eq split: if_splits)
    with scanStarted_core[OF assms(2) _ assms(3) False] show ?thesis by simp
  qed
  show "ctl s' = ctl s" "m_serviceItemsMap s' = m_serviceItemsMap s"
    "m_serviceLists s' = m_serviceLists s"
    using assms(1) by (auto simp: startQuery_eq split: if_splits)
  from assms(2) have i: "ids_issued s" by (simp add: core_def registry_ok_def)
  show "st \<in> snd ` set (m_queryIdServiceMap s')"
    "snd ` set (m_queryIdServiceMap s) \<subseteq> snd ` set (m_queryIdServiceMap s')"
    using assms(1) scanStarted_values[OF i, of st]
    by (auto simp: startQuery_eq split: if_splits)
qed


lemma scanStopped_fields [simp]:
  "m_serviceItemsMap (scanStopped i s) = m_serviceItemsMap s"
  "m_queryIdItemMap (scanStopped i s) = m_queryIdItemMap s"
  "m_queryIdTypeMap (scanStopped i s) = qremove i (m_queryIdTypeMap s)"
  "m_queryIdServiceMap (scanStopped i s) = qremove i (m_queryIdServiceMap s)"
  "m_jdns (scanStopped i s) = cancelAll [i] (m_jdns s)"
  "heap (scanStopped i s) = heap s"
  "nextAddr (scanStopped i s) = nextAddr s"
  "m_serviceLists (scanStopped i s) = m_serviceLists s"
  "m_serviceTypeMap (scanStopped i s) = m_serviceTypeMap s"
  "m_filter (scanStopped i s) = m_filter s"
  "m_unicastErrorThreshold (scanStopped i s) = m_unicastErrorThreshold s"
  by (simp_all add: scanStopped_def)

lemma scanStopped_registry_ok:
  assumes r: "registry_ok s"
  shows "registry_ok (scanStopped i s)"
proof -
  note d = registry_okD[OF r]
  have 1: "keys_distinct (scanStopped i s)"
    using d(1) by (simp add: keys_distinct_def distinct_keys_qremove)
  have 2: "scans_known (scanStopped i s)"
    using d(2) by (simp add: scans_known_def set_qremove)
  have 3: "scan_unique (scanStopped i s)"
    using d(3) by (simp add: scan_unique_def set_qremove)
  have 4: "types_bound (scanStopped i s)"
    using d(4) by (simp add: types_bound_def set_qremove qcontains_qremove)
  have 5: "requests_owned (scanStopped i s)"
    using d(5) by (simp add: requests_owned_def)
  have 6: "ids_issued (scanStopped i s)"
    using d(6) by (simp add: ids_issued_def qcontains_qremove)
  from 1 2 3 4 5 6 show ?thesis by (simp add: registry_ok_def)
qed

lemma distinct_keys_unique:
  "distinct (map fst m) \<Longrightarrow> (k, v) \<in> set m \<Longrightarrow> (k, v') \<in> set m \<Longrightarrow> v = v'"
  by (meson eq_key_imp_eq_value)

lemma scanStopped_core:
  assumes "core X s" "(i, st) \<in> set (m_queryIdServiceMap s)"
  shows "core (insert st X) (scanStopped i s)" "st \<notin> snd ` set (m_queryIdServiceMap (scanStopped i s))"
    "snd ` set (m_queryIdServiceMap (scanStopped i s)) \<subseteq> snd ` set (m_queryIdServiceMap s)"
proof -
  from assms(1) have r: "registry_ok s" and h: "heap_ok s" and sc: "items_scanned X s"
    by (simp_all add: core_def)
  note d = registry_okD[OF r]
  from d(1) have ds: "distinct (map fst (m_queryIdServiceMap s))" by (simp add: keys_distinct_def)
  have "heap_ok (scanStopped i s) = heap_ok s"
    by (rule heap_ok_cong) simp_all
  moreover have "items_scanned (insert st X) (scanStopped i s)"
    unfolding items_scanned_def
  proof (intro ballI impI)
    fix e assume e: "e \<in> set (m_serviceItemsMap (scanStopped i s))" "snd e \<noteq> []"
    with items_scannedD[OF sc, of e] have "fst e \<in> X \<or> fst e \<in> snd ` set (m_queryIdServiceMap s)"
      by simp
    then show "fst e \<in> insert st X \<or> fst e \<in> snd ` set (m_queryIdServiceMap (scanStopped i s))"
    proof
      assume "fst e \<in> X" then show ?thesis by simp
    next
      assume "fst e \<in> snd ` set (m_queryIdServiceMap s)"
      then obtain j where j: "(j, fst e) \<in> set (m_queryIdServiceMap s)" by force
      show ?thesis
      proof (cases "j = i")
        case True
        with j assms(2) distinct_keys_unique[OF ds] have "fst e = st" by blast
        then show ?thesis by simp
      next
        case False
        with j have "(j, fst e) \<in> set (m_queryIdServiceMap (scanStopped i s))"
          by (simp add: set_qremove)
        then show ?thesis by force
      qed
    qed
  qed
  ultimately show "core (insert st X) (scanStopped i s)"
    using scanStopped_registry_ok[OF r] h by (simp add: core_def)
  show "st \<notin> snd ` set (m_queryIdServiceMap (scanStopped i s))"
  proof
    assume "st \<in> snd ` set (m_queryIdServiceMap (scanStopped i s))"
    then obtain j where "(j, st) \<in> set (m_queryIdServiceMap s)" "j \<noteq> i"
      by (force simp: set_qremove)
    with d(3) assms(2) show False unfolding scan_unique_def by fastforce
  qed
  show "snd ` set (m_queryIdServiceMap (scanStopped i s)) \<subseteq> snd ` set (m_queryIdServiceMap s)"
    by (auto simp: set_qremove)
qed

lemma stopQuery_eq:
  "stopQuery rx st s =
     (case findQuery st (m_queryIdServiceMap s) of
        None \<Rightarrow> Some s
      | Some i \<Rightarrow> if m_jdns s = None then None else clearItems rx st (scanStopped i s))"
  by (auto simp: stopQuery_def scanStopped_def jdns_queryCancel_def cancelAll_def
        split: option.splits)

lemma stopQuery_inv:
  assumes "stopQuery rx st s = Some s'" "core {} s"
  shows "core {} s'" "ctl s' = ctl s"
    "fst ` set (m_serviceItemsMap s') = fst ` set (m_serviceItemsMap s)"
    "st \<notin> snd ` set (m_queryIdServiceMap s')"
    "snd ` set (m_queryIdServiceMap s') \<subseteq> snd ` set (m_queryIdServiceMap s)"
proof -
  have "core {} s' \<and> ctl s' = ctl s \<and>
    fst ` set (m_serviceItemsMap s') = fst ` set (m_serviceItemsMap s) \<and>
    st \<notin> snd ` set (m_queryIdServiceMap s') \<and>
    snd ` set (m_queryIdServiceMap s') \<subseteq> snd ` set (m_queryIdServiceMap s)"
  proof (cases "findQuery st (m_queryIdServiceMap s)")
    case None
    with assms(1) have "s' = s" by (simp add: stopQuery_eq)
    with None assms(2) show ?thesis by (simp add: findQuery_None)
  next
    case (Some i)
    with assms(1) have c: "clearItems rx st (scanStopped i s) = Some s'"
      by (simp add: stopQuery_eq split: if_splits)
    from findQuery_Some[OF Some] have m: "(i, st) \<in> set (m_queryIdServiceMap s)" .
    note a = scanStopped_core[OF assms(2) m]
    from a(1) have r: "registry_ok (scanStopped i s)" and h: "heap_ok (scanStopped i s)"
      and sc: "items_scanned (insert st {}) (scanStopped i s)"
      by (simp_all add: core_def)
    note ci = clearItems_inv[OF c]
    from ci(1)[OF r] ci(2)[OF registry_okD(1)[OF r] h] ci(3)[OF sc]
    have "core {} s'" by (simp add: core_def)
    moreover have "ctl s' = ctl s" using ci(4) by simp
    moreover have "fst ` set (m_serviceItemsMap s') = fst ` set (m_serviceItemsMap s)"
      using ci(5) by simp
    moreover have "m_queryIdServiceMap s' = m_queryIdServiceMap (scanStopped i s)"
      using ci(6) .
    ultimately show ?thesis using a(2,3) by simp
  qed
  then show "core {} s'" "ctl s' = ctl s"
    "fst ` set (m_serviceItemsMap s') = fst ` set (m_serviceItemsMap s)"
    "st \<notin> snd ` set (m_queryIdServiceMap s')"
    "snd ` set (m_queryIdServiceMap s') \<subseteq> snd ` set (m_queryIdServiceMap s)"
    by simp_all
qed

subsection \<open>The purge pass and the invariants\<close>

lemma heap_ok_heap:
  assumes "heap_ok s" "\<forall>e \<in> set (m_serviceItemsMap s). set (snd e) \<subseteq> dom h"
  shows "heap_ok (s\<lparr>heap := h\<rparr>)"
  using assms unfolding heap_ok_def by (simp add: subset_iff)

lemma purgedHeap_dom:
  "a \<in> dom (purgedHeap s todo) \<longleftrightarrow> a \<in> dom (heap s) \<and> \<not> (a \<in> set todo \<and> purged s a)"
  by (auto simp: purgedHeap_def dom_def)

lemma purgeItems_effect:
  assumes "purgeItems rx st s = Some s'" "qcontains (m_serviceItemsMap s) st"
    "distinct (instances s st)"
  shows "\<exists>ids l. set ids = requestsOf {a \<in> set (instances s st). purged s a} (m_queryIdItemMap s) \<and>
           s' = (if \<exists>a \<in> set (instances s st). purged s a
                 then (stopped {a \<in> set (instances s st). purged s a} ids s)
                        \<lparr>heap := purgedHeap s (rev (instances s st)),
                          m_serviceItemsMap :=
                            qinsert st (filter (\<lambda>a. \<not> purged s a) (instances s st)) (m_serviceItemsMap s),
                          m_serviceLists := l\<rparr>
                 else s\<lparr>heap := purgedHeap s (rev (instances s st))\<rparr>)"
proof -
  let ?xs = "instances s st"
  let ?D = "{a \<in> set ?xs. purged s a}"
  from assms(1,2) obtain kept modified s1 where
    loop: "purgeItems_loop (rev ?xs) [] False s = Some (kept, modified, s1)"
    and fin: "(if modified then updateServiceType rx st
                 (s1\<lparr>m_serviceItemsMap := qinsert st kept (m_serviceItemsMap s1)\<rparr>)
              else Some s1) = Some s'"
    by (auto simp: purgeItems_def instances_def split: option.splits)
  from purgeItems_loop_effect[OF loop] assms(3) obtain ids where
    e: "set ids = requestsOf {a \<in> set (rev ?xs). purged s a} (m_queryIdItemMap s) \<and>
        kept = rev (filter (\<lambda>a. \<not> purged s a) (rev ?xs)) @ [] \<and>
        modified = (False \<or> (\<exists>a \<in> set (rev ?xs). purged s a)) \<and>
        s1 = (stopped {a \<in> set (rev ?xs). purged s a} ids s)\<lparr>heap := purgedHeap s (rev ?xs)\<rparr>"
    by auto
  then have kept: "kept = filter (\<lambda>a. \<not> purged s a) ?xs"
    and modified: "modified = (\<exists>a \<in> set ?xs. purged s a)"
    and s1: "s1 = (stopped ?D ids s)\<lparr>heap := purgedHeap s (rev ?xs)\<rparr>"
    and ids: "set ids = requestsOf ?D (m_queryIdItemMap s)"
    by (simp_all add: rev_filter)
  show ?thesis
  proof (cases modified)
    case True
    with fin have u: "updateServiceType rx st
                 (s1\<lparr>m_serviceItemsMap := qinsert st kept (m_serviceItemsMap s1)\<rparr>) = Some s'"
      by simp
    from updateServiceType_effect[OF u] obtain l where
      "s' = (s1\<lparr>m_serviceItemsMap := qinsert st kept (m_serviceItemsMap s1)\<rparr>)\<lparr>m_serviceLists := l\<rparr>" ..
    with True ids show ?thesis
      unfolding modified by (intro exI[of _ ids] exI[of _ l]) (simp add: s1 kept)
  next
    case False
    then have "?D = {}" by (auto simp: modified)
    with ids have "ids = []" by simp
    with False fin \<open>?D = {}\<close> have "s' = s\<lparr>heap := purgedHeap s (rev ?xs)\<rparr>"
      by (simp add: s1)
    with False ids show ?thesis
      unfolding modified by (intro exI[of _ ids] exI[of _ "[]"]) simp
  qed
qed

lemma purgeItems_inv:
  assumes "purgeItems rx st s = Some s'" "core X s" "st \<in> X"
  shows "core X s'" "ctl s' = ctl s" "m_queryIdServiceMap s' = m_queryIdServiceMap s"
    "fst ` set (m_serviceItemsMap s') = fst ` set (m_serviceItemsMap s)"
    "m_serviceTypeMap s' = m_serviceTypeMap s"
proof -
  from assms(2) have r: "registry_ok s" and h: "heap_ok s" and sc: "items_scanned X s"
    and k: "keys_distinct s"
    by (simp_all add: core_def registry_ok_def)
  let ?xs = "instances s st"
  let ?D = "{a \<in> set ?xs. purged s a}"
  let ?ys = "filter (\<lambda>a. \<not> purged s a) ?xs"
  let ?h = "purgedHeap s (rev ?xs)"
  have "core X s' \<and> ctl s' = ctl s \<and> m_queryIdServiceMap s' = m_queryIdServiceMap s \<and>
    fst ` set (m_serviceItemsMap s') = fst ` set (m_serviceItemsMap s) \<and>
    m_serviceTypeMap s' = m_serviceTypeMap s"
  proof (cases "qcontains (m_serviceItemsMap s) st")
    case False
    with assms(1) have "s' = s" by (simp add: purgeItems_def)
    with assms(2) show ?thesis by simp
  next
    case True
    from instances_in[OF k True] have mem: "(st, ?xs) \<in> set (m_serviceItemsMap s)" .
    from heap_ok_list(1)[OF h mem] have dx: "distinct ?xs" by simp
    from purgeItems_effect[OF assms(1) True dx] obtain ids l where
      s': "s' = (if \<exists>a \<in> set ?xs. purged s a
                 then (stopped ?D ids s)\<lparr>heap := ?h,
                          m_serviceItemsMap := qinsert st ?ys (m_serviceItemsMap s),
                          m_serviceLists := l\<rparr>
                 else s\<lparr>heap := ?h\<rparr>)"
      by blast
    have hd: "\<And>e. e \<in> set (m_serviceItemsMap s) \<Longrightarrow> fst e \<noteq> st \<Longrightarrow> set (snd e) \<subseteq> dom ?h"
    proof
      fix e a assume e: "e \<in> set (m_serviceItemsMap s)" "fst e \<noteq> st" and a: "a \<in> set (snd e)"
      from heap_ok_disjoint[OF h e(1) mem] e(2) a have "a \<notin> set ?xs" by auto
      moreover from heap_ok_list(2)[OF h e(1) a] have "a \<in> dom (heap s)" by simp
      ultimately show "a \<in> dom ?h" by (simp add: purgedHeap_dom)
    qed
    have yd: "set ?ys \<subseteq> dom ?h"
    proof
      fix a assume "a \<in> set ?ys"
      then have "a \<in> set ?xs" "\<not> purged s a" by simp_all
      with heap_ok_list(2)[OF h mem, of a] show "a \<in> dom ?h" by (simp add: purgedHeap_dom)
    qed
    show ?thesis
    proof (cases "\<exists>a \<in> set ?xs. purged s a")
      case False
      then have e: "s' = s\<lparr>heap := ?h\<rparr>" by (simp add: s')
      from False have "?ys = ?xs" by simp
      with yd have "set ?xs \<subseteq> dom ?h" by simp
      with hd mem have "\<forall>e \<in> set (m_serviceItemsMap s). set (snd e) \<subseteq> dom ?h"
        using instances_eq[OF k] by metis
      from heap_ok_heap[OF h this] r sc show ?thesis by (simp add: e core_def)
    next
      case p: True
      then have e: "s' = (stopped ?D ids s)\<lparr>heap := ?h,
                          m_serviceItemsMap := qinsert st ?ys (m_serviceItemsMap s),
                          m_serviceLists := l\<rparr>"
        by (simp add: s')
      have R: "registry_ok ((stopped ?D ids s)\<lparr>m_serviceItemsMap := qinsert st ?ys (m_serviceItemsMap (stopped ?D ids s))\<rparr>)"
      proof (rule registry_ok_setList[OF registry_ok_stopped[OF r]], intro ballI impI)
        fix q assume q: "q \<in> set (m_queryIdItemMap (stopped ?D ids s))"
          and m: "snd q \<in> set (instances (stopped ?D ids s) st)"
        from q have "snd q \<notin> ?D" by (auto dest: dropRequests_no_requests)
        moreover from m have "snd q \<in> set ?xs" by (simp add: instances_def)
        ultimately show "snd q \<in> set ?ys" by simp
      qed
      have R': "registry_ok s'"
        using R registry_ok_cong[of s' "(stopped ?D ids s)\<lparr>m_serviceItemsMap := qinsert st ?ys (m_serviceItemsMap (stopped ?D ids s))\<rparr>"]
        by (simp add: e)
      have H1: "heap_ok (s\<lparr>m_serviceItemsMap := qinsert st ?ys (m_serviceItemsMap s)\<rparr>)"
      proof (rule heap_ok_setList[OF h])
        show "distinct ?ys" using dx by simp
        show "\<forall>a\<in>set ?ys. a \<in> dom (heap s) \<and> a < nextAddr s"
          using heap_ok_list(2)[OF h mem] by simp
        show "\<forall>e\<in>set (m_serviceItemsMap s). fst e \<noteq> st \<longrightarrow> set (snd e) \<inter> set ?ys = {}"
        proof (intro ballI impI)
          fix e assume "e \<in> set (m_serviceItemsMap s)" "fst e \<noteq> st"
          with heap_ok_disjoint[OF h _ mem] have "set (snd e) \<inter> set ?xs = {}" by simp
          then show "set (snd e) \<inter> set ?ys = {}" by auto
        qed
      qed
      have H2: "heap_ok (s\<lparr>m_serviceItemsMap := qinsert st ?ys (m_serviceItemsMap s)\<rparr>\<lparr>heap := ?h\<rparr>)"
      proof (rule heap_ok_heap[OF H1], intro ballI)
        fix e assume "e \<in> set (m_serviceItemsMap (s\<lparr>m_serviceItemsMap := qinsert st ?ys (m_serviceItemsMap s)\<rparr>))"
        then consider "e = (st, ?ys)" | "e \<in> set (m_serviceItemsMap s)" "fst e \<noteq> st"
          by (auto simp: set_qinsert)
        then show "set (snd e) \<subseteq> dom ?h"
        proof cases
          case 1
          with yd show ?thesis by simp
        next
          case 2
          with hd show ?thesis by simp
        qed
      qed
      have H': "heap_ok s'"
        using H2 heap_ok_cong[of s' "s\<lparr>m_serviceItemsMap := qinsert st ?ys (m_serviceItemsMap s)\<rparr>\<lparr>heap := ?h\<rparr>"]
        by (simp add: e)
      have "items_scanned X (s\<lparr>m_serviceItemsMap := qinsert st ?ys (m_serviceItemsMap s)\<rparr>)"
        using assms(3) by (intro items_scanned_setList[OF sc]) simp
      then have S': "items_scanned X s'"
        using items_scanned_cong[of s' "s\<lparr>m_serviceItemsMap := qinsert st ?ys (m_serviceItemsMap s)\<rparr>" X]
        by (simp add: e)
      have "fst ` set (m_serviceItemsMap s') = fst ` set (m_serviceItemsMap s)"
        using True by (auto simp: e keys_qinsert qcontains_def)
      with R' H' S' show ?thesis by (simp add: core_def e)
    qed
  qed
  then show "core X s'" "ctl s' = ctl s" "m_queryIdServiceMap s' = m_queryIdServiceMap s"
    "fst ` set (m_serviceItemsMap s') = fst ` set (m_serviceItemsMap s)"
    "m_serviceTypeMap s' = m_serviceTypeMap s"
    by simp_all
qed

subsection \<open>Refreshing a scan, adding and removing a service type\<close>

lemma purgeItems_jdns:
  assumes "purgeItems rx st s = Some s'" "core X s"
  shows "(m_jdns s' = None) = (m_jdns s = None)"
  using purgeItems_inv(2)[OF assms(1)] assms(2)
  by (cases "st \<in> X") (auto simp: ctl_def dest: core_mono[of X s "insert st X"]
      purgeItems_inv(2)[OF assms(1), of "insert st X"])

lemma scanStarted_typeMap_cong:
  "m_serviceTypeMap s' = m_serviceTypeMap s \<Longrightarrow>
     qvalue NoType (m_serviceTypeMap s') st = qvalue NoType (m_serviceTypeMap s) st"
  by simp

lemma refreshQuery_eq:
  "refreshQuery rx st s =
     (case findQuery st (m_queryIdServiceMap s) of
        None \<Rightarrow> Some s
      | Some i \<Rightarrow>
          if m_jdns s = None then None
          else (case purgeItems rx st (scanStopped i s) of
                  None \<Rightarrow> None
                | Some s2 \<Rightarrow>
                    if m_jdns s2 = None then None
                    else if m_serviceTypeMap s2 = m_serviceTypeMap s then Some (scanStarted st s2)
                    else refreshQuery rx st s))"
  by (auto simp: refreshQuery_def scanStopped_def scanStarted_def jdns_queryCancel_def
        jdns_queryStart_def cancelAll_def Let_def split: option.splits)

lemma refreshQuery_inv:
  assumes "refreshQuery rx st s = Some s'" "core {} s"
  shows "core {} s'" "ctl s' = ctl s"
    "fst ` set (m_serviceItemsMap s') = fst ` set (m_serviceItemsMap s)"
proof -
  have "core {} s' \<and> ctl s' = ctl s \<and>
    fst ` set (m_serviceItemsMap s') = fst ` set (m_serviceItemsMap s)"
  proof (cases "findQuery st (m_queryIdServiceMap s)")
    case None
    with assms show ?thesis by (simp add: refreshQuery_eq)
  next
    case (Some i)
    from findQuery_Some[OF Some] have m: "(i, st) \<in> set (m_queryIdServiceMap s)" .
    note a = scanStopped_core[OF assms(2) m]
    from assms(1) Some obtain s2 where p: "purgeItems rx st (scanStopped i s) = Some s2"
      by (subst (asm) refreshQuery_eq) (auto split: if_splits option.splits)
    note pi = purgeItems_inv[OF p a(1)]
    have tm: "m_serviceTypeMap s2 = m_serviceTypeMap s" using pi(5) by simp
    from assms(1) Some p tm have j2: "m_jdns s2 \<noteq> None" and s': "s' = scanStarted st s2"
      by (subst (asm) refreshQuery_eq; simp split: if_splits)+
    from assms(2) have "scans_known s" by (simp add: core_def registry_ok_def)
    with m have "qcontains (m_serviceItemsMap s) st" unfolding scans_known_def by fastforce
    with pi(4) have c: "qcontains (m_serviceItemsMap s2) st" by (simp add: qcontains_def)
    have n: "st \<notin> snd ` set (m_queryIdServiceMap s2)" using a(2) pi(3) by simp
    from scanStarted_core[OF pi(1) j2 c n] have "core {} s'" by (simp add: s')
    moreover have "ctl s' = ctl s" using pi(2) by (simp add: s')
    moreover have "fst ` set (m_serviceItemsMap s') = fst ` set (m_serviceItemsMap s)"
      using pi(4) by (simp add: s')
    ultimately show ?thesis by simp
  qed
  then show "core {} s'" "ctl s' = ctl s"
    "fst ` set (m_serviceItemsMap s') = fst ` set (m_serviceItemsMap s)"
    by simp_all
qed

lemma instances_absent: "\<not> qcontains (m_serviceItemsMap s) st \<Longrightarrow> instances s st = []"
proof -
  assume "\<not> qcontains (m_serviceItemsMap s) st"
  then have "map_of (m_serviceItemsMap s) st = None"
    by (simp add: qcontains_def map_of_eq_None_iff)
  then show ?thesis by (simp add: instances_def qvalue_def)
qed

lemma heap_ok_subset:
  assumes "heap_ok s" "set M \<subseteq> set (m_serviceItemsMap s)"
  shows "heap_ok (s\<lparr>m_serviceItemsMap := M\<rparr>)"
proof -
  have 1: "distinct (snd e) \<and> (\<forall>a \<in> set (snd e). a \<in> dom (heap s) \<and> a < nextAddr s)"
    if "e \<in> set M" for e
    using that assms heap_ok_list[of s e] by blast
  have 2: "set (snd e) \<inter> set (snd e') = {}"
    if "e \<in> set M" "e' \<in> set M" "fst e \<noteq> fst e'" for e e'
    using that assms heap_ok_disjoint[of s e e'] by blast
  show ?thesis unfolding heap_ok_def using 1 2 by simp
qed

lemma addServiceType_inv:
  assumes "core X s"
  shows "core X (addServiceType st qt s)" "ctl (addServiceType st qt s) = ctl s"
    "m_queryIdServiceMap (addServiceType st qt s) = m_queryIdServiceMap s"
    "qcontains (m_serviceItemsMap (addServiceType st qt s)) st"
    "fst ` set (m_serviceItemsMap s) \<subseteq> fst ` set (m_serviceItemsMap (addServiceType st qt s))"
    "m_running (addServiceType st qt s) = m_running s"
    "m_networkReady (addServiceType st qt s) = m_networkReady s"
    "m_serviceLists (addServiceType st qt s) = m_serviceLists s"
proof -
  from assms have r: "registry_ok s" and h: "heap_ok s" and sc: "items_scanned X s"
    by (simp_all add: core_def)
  show "core X (addServiceType st qt s)"
  proof (cases "qcontains (m_serviceItemsMap s) st")
    case True
    with assms show ?thesis by (simp add: addServiceType_def)
  next
    case False
    have "registry_ok (s\<lparr>m_serviceItemsMap := qinsert st [] (m_serviceItemsMap s)\<rparr>)"
      by (rule registry_ok_setList[OF r]) (simp add: instances_absent[OF False])
    moreover have "heap_ok (s\<lparr>m_serviceItemsMap := qinsert st [] (m_serviceItemsMap s)\<rparr>)"
      by (rule heap_ok_setList[OF h]) simp_all
    moreover have "items_scanned X (s\<lparr>m_serviceItemsMap := qinsert st [] (m_serviceItemsMap s)\<rparr>)"
      by (rule items_scanned_setList[OF sc]) simp
    ultimately show ?thesis using False by (simp add: addServiceType_def core_def)
  qed
  show "ctl (addServiceType st qt s) = ctl s"
    "m_queryIdServiceMap (addServiceType st qt s) = m_queryIdServiceMap s"
    "qcontains (m_serviceItemsMap (addServiceType st qt s)) st"
    "fst ` set (m_serviceItemsMap s) \<subseteq> fst ` set (m_serviceItemsMap (addServiceType st qt s))"
    "m_running (addServiceType st qt s) = m_running s"
    "m_networkReady (addServiceType st qt s) = m_networkReady s"
    "m_serviceLists (addServiceType st qt s) = m_serviceLists s"
    by (auto simp: addServiceType_def qcontains_qinsert keys_qinsert ctl_def)
qed

lemma removeKey_core:
  assumes "core X s" "st \<notin> snd ` set (m_queryIdServiceMap s)"
    "\<forall>e \<in> set (m_serviceItemsMap s). fst e = st \<longrightarrow> snd e = []"
  shows "core X (s\<lparr>m_serviceItemsMap := qremove st (m_serviceItemsMap s)\<rparr>)"
proof -
  from assms(1) have r: "registry_ok s" and h: "heap_ok s" and sc: "items_scanned X s"
    by (simp_all add: core_def)
  note d = registry_okD[OF r]
  let ?s = "s\<lparr>m_serviceItemsMap := qremove st (m_serviceItemsMap s)\<rparr>"
  have 1: "keys_distinct ?s"
    using d(1) by (simp add: keys_distinct_def distinct_keys_qremove)
  have 2: "scans_known ?s"
    using d(2) assms(2) unfolding scans_known_def by (auto simp: qcontains_qremove)
  have 5: "requests_owned ?s"
    unfolding requests_owned_def
  proof
    fix p assume "p \<in> set (m_queryIdItemMap ?s)"
    with d(5) obtain e where e: "e \<in> set (m_serviceItemsMap s)" "snd p \<in> set (snd e)"
      unfolding requests_owned_def by auto
    with assms(3) have "fst e \<noteq> st" by auto
    with e(1) have "e \<in> set (m_serviceItemsMap ?s)" by (simp add: set_qremove)
    with e(2) show "\<exists>e\<in>set (m_serviceItemsMap ?s). snd p \<in> set (snd e)" by blast
  qed
  have R: "registry_ok ?s"
    using 1 2 5 d(3,4,6) by (simp add: registry_ok_def)
  have H: "heap_ok ?s"
    by (rule heap_ok_subset[OF h]) (auto simp: set_qremove)
  have S: "items_scanned X ?s"
    using sc unfolding items_scanned_def by (simp add: set_qremove)
  from R H S show ?thesis by (simp add: core_def)
qed

lemma removeServiceType_inv:
  assumes "removeServiceType rx st s = Some s'" "core X s"
    "st \<notin> snd ` set (m_queryIdServiceMap s)"
  shows "core X s'" "ctl s' = ctl s" "m_queryIdServiceMap s' = m_queryIdServiceMap s"
    "fst ` set (m_serviceItemsMap s') = fst ` set (m_serviceItemsMap s) - {st}"
proof -
  have "core X s' \<and> ctl s' = ctl s \<and> m_queryIdServiceMap s' = m_queryIdServiceMap s \<and>
    fst ` set (m_serviceItemsMap s') = fst ` set (m_serviceItemsMap s) - {st}"
  proof (cases "qcontains (m_serviceItemsMap s) st")
    case False
    with assms show ?thesis by (auto simp: removeServiceType_def qcontains_def)
  next
    case True
    with assms(1) obtain s1 where c: "clearItems rx st s = Some s1"
      and s': "s' = s1\<lparr>m_serviceItemsMap := qremove st (m_serviceItemsMap s1),
                 m_serviceTypeMap := qremove st (m_serviceTypeMap s1)\<rparr>"
      by (auto simp: removeServiceType_def split: Option.bind_splits)
    from assms(2) have r: "registry_ok s" and h: "heap_ok s" and sc: "items_scanned (insert st X) s"
      by (auto simp: core_def intro: items_scanned_mono)
    note ci = clearItems_inv[OF c]
    from ci(1)[OF r] ci(2)[OF registry_okD(1)[OF r] h] ci(3)[OF sc]
    have c1: "core X s1" by (simp add: core_def)
    have "core X (s1\<lparr>m_serviceItemsMap := qremove st (m_serviceItemsMap s1)\<rparr>)"
      using assms(3) ci(6) ci(7) by (intro removeKey_core[OF c1]) auto
    then have "core X s'" by (simp add: s')
    moreover have "ctl s' = ctl s" using ci(4) by (simp add: s')
    moreover have "m_queryIdServiceMap s' = m_queryIdServiceMap s" using ci(6) by (simp add: s')
    moreover have "fst ` set (m_serviceItemsMap s') = fst ` set (m_serviceItemsMap s) - {st}"
      using ci(5) by (simp add: s' keys_qremove)
    ultimately show ?thesis by simp
  qed
  then show "core X s'" "ctl s' = ctl s" "m_queryIdServiceMap s' = m_queryIdServiceMap s"
    "fst ` set (m_serviceItemsMap s') = fst ` set (m_serviceItemsMap s) - {st}"
    by simp_all
qed

subsection \<open>The sub-queries of an item and the invariants\<close>

lemma heap_ok_update:
  assumes "heap_ok s" "a \<in> dom (heap s)"
  shows "heap_ok (s\<lparr>heap := (heap s)(a \<mapsto> it)\<rparr>)"
  by (rule heap_ok_heap[OF assms(1)]) (use heap_ok_list(2)[OF assms(1)] in auto)

lemma core_item_update:
  assumes "core X s" "a \<in> dom (heap s)"
  shows "core X (s\<lparr>heap := (heap s)(a \<mapsto> it)\<rparr>)"
  using assms heap_ok_update[of s a it] by (simp add: core_def)

lemma item_modify_inv:
  assumes "item_modify p f s = Some s'" "core X s"
  shows "core X s'" "ctl s' = ctl s" "m_queryIdServiceMap s' = m_queryIdServiceMap s"
    "m_serviceItemsMap s' = m_serviceItemsMap s" "m_serviceLists s' = m_serviceLists s"
  using assms core_item_update[OF assms(2)] by (auto simp: item_modify_effect)

lemma addItem_inv:
  assumes "addItem nm ty s = Some (p, s')" "core X s"
    "ty \<in> X \<or> ty \<in> snd ` set (m_queryIdServiceMap s)"
  shows "core X s'" "ctl s' = ctl s" "m_queryIdServiceMap s' = m_queryIdServiceMap s"
    "m_jdns s' = m_jdns s"
    "qcontains (m_serviceItemsMap s) ty \<Longrightarrow>
       \<exists>a. p = Some a \<and> a \<in> dom (heap s') \<and> (\<exists>e \<in> set (m_serviceItemsMap s'). a \<in> set (snd e))"
proof -
  from assms(2) have r: "registry_ok s" and h: "heap_ok s" and sc: "items_scanned X s"
    and k: "keys_distinct s"
    by (simp_all add: core_def registry_ok_def)
  let ?xs = "instances s ty"
  let ?a = "nextAddr s"
  let ?it = "newServiceDiscoveryItem\<lparr>itemName := nm, itemType := ty\<rparr>"
  from addItem_effect[OF assms(1)]
  consider "\<not> qcontains (m_serviceItemsMap s) ty" "p = None" "s' = s"
    | a where "qcontains (m_serviceItemsMap s) ty" "a \<in> set ?xs" "p = Some a" "s' = s"
    | "qcontains (m_serviceItemsMap s) ty" "p = Some ?a"
      "s' = s\<lparr>heap := (heap s)(?a \<mapsto> ?it), nextAddr := Suc ?a,
              m_serviceItemsMap := qinsert ty (?xs @ [?a]) (m_serviceItemsMap s)\<rparr>"
    by blast
  then have "core X s' \<and> ctl s' = ctl s \<and> m_queryIdServiceMap s' = m_queryIdServiceMap s \<and>
    m_jdns s' = m_jdns s \<and>
    (qcontains (m_serviceItemsMap s) ty \<longrightarrow>
       (\<exists>a. p = Some a \<and> a \<in> dom (heap s') \<and> (\<exists>e \<in> set (m_serviceItemsMap s'). a \<in> set (snd e))))"
  proof cases
    case 1
    with assms(2) show ?thesis by simp
  next
    case (2 a)
    from instances_in[OF k 2(1)] have mem: "(ty, ?xs) \<in> set (m_serviceItemsMap s)" .
    from heap_ok_list(2)[OF h mem, of a] 2(2) have "a \<in> dom (heap s)" by simp
    with 2 mem assms(2) show ?thesis by force
  next
    case 3
    from instances_in[OF k 3(1)] have mem: "(ty, ?xs) \<in> set (m_serviceItemsMap s)" .
    have below: "\<And>e b. e \<in> set (m_serviceItemsMap s) \<Longrightarrow> b \<in> set (snd e) \<Longrightarrow> b < ?a \<and> b \<in> dom (heap s)"
      using heap_ok_list(2)[OF h] by blast
    have R: "registry_ok (s\<lparr>m_serviceItemsMap := qinsert ty (?xs @ [?a]) (m_serviceItemsMap s)\<rparr>)"
      by (rule registry_ok_setList[OF r]) simp
    have R': "registry_ok s'"
      using R registry_ok_cong[of s' "s\<lparr>m_serviceItemsMap := qinsert ty (?xs @ [?a]) (m_serviceItemsMap s)\<rparr>"]
      by (simp add: 3(3))
    let ?s1 = "s\<lparr>heap := (heap s)(?a \<mapsto> ?it), nextAddr := Suc ?a\<rparr>"
    have H1: "heap_ok ?s1"
      using h below unfolding heap_ok_def by (simp add: less_Suc_eq)
    have H2: "heap_ok (?s1\<lparr>m_serviceItemsMap := qinsert ty (?xs @ [?a]) (m_serviceItemsMap ?s1)\<rparr>)"
    proof (rule heap_ok_setList[OF H1])
      from below[OF mem] have "?a \<notin> set ?xs" by auto
      with heap_ok_list(1)[OF h mem] show "distinct (?xs @ [?a])" by simp
      show "\<forall>a\<in>set (?xs @ [?a]). a \<in> dom (heap ?s1) \<and> a < nextAddr ?s1"
        using below[OF mem] by (auto simp: less_Suc_eq)
      show "\<forall>e\<in>set (m_serviceItemsMap ?s1). fst e \<noteq> ty \<longrightarrow> set (snd e) \<inter> set (?xs @ [?a]) = {}"
      proof (intro ballI impI)
        fix e assume e: "e \<in> set (m_serviceItemsMap ?s1)" "fst e \<noteq> ty"
        with heap_ok_disjoint[OF h _ mem, of e] have "set (snd e) \<inter> set ?xs = {}" by simp
        moreover from below[of e] e(1) have "?a \<notin> set (snd e)" by auto
        ultimately show "set (snd e) \<inter> set (?xs @ [?a]) = {}" by auto
      qed
    qed
    have H': "heap_ok s'"
      using H2 heap_ok_cong[of s' "?s1\<lparr>m_serviceItemsMap := qinsert ty (?xs @ [?a]) (m_serviceItemsMap ?s1)\<rparr>"]
      by (simp add: 3(3))
    have "items_scanned X (s\<lparr>m_serviceItemsMap := qinsert ty (?xs @ [?a]) (m_serviceItemsMap s)\<rparr>)"
      using assms(3) by (intro items_scanned_setList[OF sc]) simp
    then have S': "items_scanned X s'"
      using items_scanned_cong[of s' "s\<lparr>m_serviceItemsMap := qinsert ty (?xs @ [?a]) (m_serviceItemsMap s)\<rparr>" X]
      by (simp add: 3(3))
    have "(ty, ?xs @ [?a]) \<in> set (m_serviceItemsMap s')" by (simp add: 3(3) set_qinsert)
    then have "\<exists>e \<in> set (m_serviceItemsMap s'). ?a \<in> set (snd e)" by force
    moreover have "?a \<in> dom (heap s')" by (simp add: 3(3))
    ultimately show ?thesis using R' H' S' 3(2) by (simp add: core_def 3(3) ctl_def)
  qed
  then show "core X s'" "ctl s' = ctl s" "m_queryIdServiceMap s' = m_queryIdServiceMap s"
    "m_jdns s' = m_jdns s"
    "qcontains (m_serviceItemsMap s) ty \<Longrightarrow>
       \<exists>a. p = Some a \<and> a \<in> dom (heap s') \<and> (\<exists>e \<in> set (m_serviceItemsMap s'). a \<in> set (snd e))"
    by simp_all
qed

lemma requestStarted_core:
  assumes c: "core X s" and j: "m_jdns s \<noteq> None" and a: "a \<in> dom (heap s)"
    and o: "\<exists>e \<in> set (m_serviceItemsMap s). a \<in> set (snd e)" and t: "qt \<noteq> Ptr"
  shows "core X (requestStarted nm qt a s)" "ctl (requestStarted nm qt a s) = ctl s"
    "m_queryIdServiceMap (requestStarted nm qt a s) = m_queryIdServiceMap s"
    "m_serviceItemsMap (requestStarted nm qt a s) = m_serviceItemsMap s"
    "dom (heap (requestStarted nm qt a s)) = dom (heap s)"
    "m_jdns (requestStarted nm qt a s) \<noteq> None"
proof -
  from c have r: "registry_ok s" and h: "heap_ok s" and sc: "items_scanned X s"
    by (simp_all add: core_def)
  from j obtain jd where jd: "m_jdns s = Some jd" by auto
  from a obtain it where it: "heap s a = Some it" by auto
  let ?i = "idSource jd (length (started jd))"
  let ?s = "requestStarted nm qt a s"
  note f = fresh_id[OF registry_okD(6)[OF r] jd]
  note d = registry_okD[OF r]
  have e: "?s =
      s\<lparr>m_jdns := Some (jd\<lparr>started := started jd @ [(?i, nm, qt)]\<rparr>),
        heap := (heap s)(a \<mapsto> it\<lparr>outstandingRequests := insert ?i (outstandingRequests it)\<rparr>),
        m_queryIdTypeMap := qinsert ?i qt (m_queryIdTypeMap s),
        m_queryIdItemMap := qinsert ?i a (m_queryIdItemMap s)\<rparr>"
    by (simp add: requestStarted_def jd it)
  have 1: "keys_distinct ?s" using d(1) by (simp add: e keys_distinct_def)
  have 2: "scans_known ?s" using d(2) by (simp add: e scans_known_def)
  have "scan_unique ?s = scan_unique s" by (simp add: e scan_unique_def)
  with d(3) have 3: "scan_unique ?s" by blast
  have 4: "types_bound ?s"
    using d(4) t unfolding e types_bound_def by (auto simp: set_qinsert qcontains_qinsert)
  have 5: "requests_owned ?s"
    using d(5) o unfolding e requests_owned_def by (auto simp: set_qinsert)
  have 6: "ids_issued ?s"
    using d(6) jd unfolding e ids_issued_def
    by (auto simp: bk_Some qcontains_qinsert intro: less_SucI)
  have R: "registry_ok ?s" using 1 2 3 4 5 6 by (simp add: registry_ok_def)
  have "heap_ok (s\<lparr>heap := (heap s)(a \<mapsto> it\<lparr>outstandingRequests := insert ?i (outstandingRequests it)\<rparr>)\<rparr>)"
    by (rule heap_ok_update[OF h a])
  then have H: "heap_ok ?s"
    using heap_ok_cong[of ?s "s\<lparr>heap := (heap s)(a \<mapsto> it\<lparr>outstandingRequests := insert ?i (outstandingRequests it)\<rparr>)\<rparr>"]
    by (simp add: e)
  have S: "items_scanned X ?s"
    using sc items_scanned_cong[of ?s s X] by (simp add: e)
  from R H S show "core X ?s" by (simp add: core_def)
  show "ctl ?s = ctl s" "m_queryIdServiceMap ?s = m_queryIdServiceMap s"
    "m_serviceItemsMap ?s = m_serviceItemsMap s" "dom (heap ?s) = dom (heap s)"
    "m_jdns ?s \<noteq> None"
    using a by (auto simp: e ctl_def jd)
qed

lemma requestFinished_core:
  assumes c: "core X s" and a: "a \<in> dom (heap s)"
  shows "core X (requestFinished qid a s)" "ctl (requestFinished qid a s) = ctl s"
    "m_queryIdServiceMap (requestFinished qid a s) = m_queryIdServiceMap s"
    "m_serviceItemsMap (requestFinished qid a s) = m_serviceItemsMap s"
    "dom (heap (requestFinished qid a s)) = dom (heap s)"
    "(m_jdns (requestFinished qid a s) = None) = (m_jdns s = None)"
proof -
  from c have r: "registry_ok s" and h: "heap_ok s" and sc: "items_scanned X s"
    by (simp_all add: core_def)
  from a obtain it where it: "heap s a = Some it" by auto
  let ?s = "requestFinished qid a s"
  note d = registry_okD[OF r]
  have e: "?s =
      s\<lparr>m_jdns := cancelAll [qid] (m_jdns s),
        heap := (heap s)(a \<mapsto> it\<lparr>outstandingRequests := outstandingRequests it - {qid}\<rparr>),
        m_queryIdTypeMap := qremove qid (m_queryIdTypeMap s),
        m_queryIdItemMap := qremove qid (m_queryIdItemMap s)\<rparr>"
    by (simp add: requestFinished_def it)
  have 1: "keys_distinct ?s" using d(1) by (simp add: e keys_distinct_def)
  have 2: "scans_known ?s" using d(2) by (simp add: e scans_known_def)
  have "scan_unique ?s = scan_unique s" by (simp add: e scan_unique_def)
  with d(3) have 3: "scan_unique ?s" by blast
  have 4: "types_bound ?s"
    using d(4) unfolding e types_bound_def by (auto simp: set_qremove qcontains_qremove)
  have 5: "requests_owned ?s"
    using d(5) unfolding e requests_owned_def by (auto simp: set_qremove)
  have 6: "ids_issued ?s"
    using d(6) unfolding e ids_issued_def by (auto simp: qcontains_qremove)
  have R: "registry_ok ?s" using 1 2 3 4 5 6 by (simp add: registry_ok_def)
  have "heap_ok (s\<lparr>heap := (heap s)(a \<mapsto> it\<lparr>outstandingRequests := outstandingRequests it - {qid}\<rparr>)\<rparr>)"
    by (rule heap_ok_update[OF h a])
  then have H: "heap_ok ?s"
    using heap_ok_cong[of ?s "s\<lparr>heap := (heap s)(a \<mapsto> it\<lparr>outstandingRequests := outstandingRequests it - {qid}\<rparr>)\<rparr>"]
    by (simp add: e)
  have S: "items_scanned X ?s"
    using sc items_scanned_cong[of ?s s X] by (simp add: e)
  from R H S show "core X ?s" by (simp add: core_def)
  show "ctl ?s = ctl s" "m_queryIdServiceMap ?s = m_queryIdServiceMap s"
    "m_serviceItemsMap ?s = m_serviceItemsMap s" "dom (heap ?s) = dom (heap s)"
    "(m_jdns ?s = None) = (m_jdns s = None)"
    using a by (auto simp: e ctl_def)
qed

subsection \<open>Answers, projection and filter\<close>

lemma inj_int [simp]: "inj int"
  by (simp add: inj_on_def)

lemmas eval_defs = discovering_def httpQuery_def answer_def startedQueries_def visibleItems_def unresolved_def
  literalContains_def initial_def scanning_def resolving_def unresolvedVisible_def
  networkSessionOpened_def initializeMdns_def updateServices_def updateAllServiceTypes_def
  updateServiceType_def updateQuery_def addServiceType_def startQuery_def jdns_queryStart_def
  setRunning_def qcontains_def qvalue_def qinsert_def qremove_def qkeys_def
  resultsReady_def resultsReady_record_def resultsReady_branch_def resultsReady_resolved_def
  addItem_def getItem_def startItemQuery_def finishItemQuery_def item_modify_def jdns_queryCancel_def
  left_def newServiceDiscoveryItem_def updateItem_def allQueries_def updateServices_remove_def
  filterServiceDiscoveryItem_def Let_def insert_Diff_if

lemma run_discovering: "run literalContains discovering initial = Some scanning"
  by (simp add: eval_defs)

lemma run_resolving: "run literalContains [ResultsReady 0 [answer ''x._h._tcp'' 120]] scanning = Some resolving"
  by (simp add: eval_defs insert_commute)

text \<open>
  Claim C2, as stated, fails: in the state \<open>resolving\<close> the instance \<open>x\<close> exists under
  \<open>_h._tcp\<close>, and a second PTR answer with a positive ttl that names it starts a new TXT
  and a new SRV sub-query.
\<close>

theorem duplicate_ptr_counterexample:
  "getItem ''x'' ''_h._tcp'' resolving = Some (Some 0) \<and>
   map_option startedQueries (resultsReady literalContains 0 [answer ''x._h._tcp'' 120] resolving) =
     Some (startedQueries resolving @ [(3, ''x._h._tcp'', Txt), (4, ''x._h._tcp'', Srv)])"
  by (simp add: eval_defs)

text \<open>
  Claim C3, as stated, fails: the PTR answer \<open>nodot\<close> with a positive ttl, delivered to the
  scan of \<open>_h._tcp\<close>, creates an instance and starts a TXT and an SRV sub-query.
\<close>

theorem ptr_without_separator_counterexample:
  "indexOf ''nodot'' ''._'' = - 1 \<and>
   map_option m_serviceItemsMap (resultsReady literalContains 0 [answer ''nodot'' 120] scanning) =
     Some [(''_h._tcp'', [0])] \<and>
   map_option startedQueries (resultsReady literalContains 0 [answer ''nodot'' 120] scanning) =
     Some [(0, ''_h._tcp'', Ptr), (1, ''nodot'', Txt), (2, ''nodot'', Srv)]"
  by (simp add: eval_defs)

text \<open>
  Claim C4, as stated, fails: two instances \<open>x\<close> and \<open>y\<close> are announced, the TXT, SRV and
  A answers for \<open>x\<close> arrive, and the user's query then lists both items, of which \<open>y\<close>
  (item 1) still has outstanding requests.
\<close>

theorem resolution_gating_counterexample:
  "map_option unresolvedVisible
     (run literalContains
        (discovering @
         [ResultsReady 0 [answer ''x._h._tcp'' 120, answer ''y._h._tcp'' 120],
          ResultsReady 1 [answer ''x._h._tcp'' 120],
          ResultsReady 2 [answer ''host'' 120],
          ResultsReady 5 [answer ''host'' 120]])
        initial) = Some [1]"
  by (simp add: eval_defs)


lemma indexOf_occurrence:
  "0 \<le> indexOf hay needle \<Longrightarrow> \<exists>pre post. hay = pre @ needle @ post"
proof (induction hay)
  case Nil
  then show ?case by (simp split: if_splits)
next
  case (Cons c cs)
  show ?case
  proof (cases "take (length needle) (c # cs) = needle")
    case True
    then have "c # cs = [] @ needle @ drop (length needle) (c # cs)"
      by (metis append_Nil append_take_drop_id)
    then show ?thesis by blast
  next
    case False
    with Cons.prems have "0 \<le> indexOf cs needle"
      by (simp add: Let_def split: if_splits)
    with Cons.IH obtain pre post where "cs = pre @ needle @ post" by blast
    then have "c # cs = (c # pre) @ needle @ post" by simp
    then show ?thesis by blast
  qed
qed

lemma left_negative: "len < 0 \<Longrightarrow> left len ba = []"
  by (simp add: left_def)

lemma resultsReady_branch_Ptr:
  "resultsReady_branch rx qid Ptr r s =
     handlePtr rx (left (indexOf (rName r) ''._'') (rName r)) (qvalue [] (m_queryIdServiceMap s) qid) r s"
  by (simp add: resultsReady_branch_def handlePtr_def Let_def)

text \<open>
  Claim C3, amended: a PTR answer whose name contains no occurrence of \<open>._\<close> is handled
  like any other PTR answer, with the empty string as the instance name: with ttl > 0 the
  instance of that name is looked up or created under the service type of the scan and
  its TXT and SRV sub-queries are started, with ttl = 0 the instance of that name is
  removed if it exists.
\<close>

theorem ptr_without_separator:
  assumes "\<forall>pre post. rName r \<noteq> pre @ ''._'' @ post"
  shows "resultsReady_branch rx qid Ptr r s =
           handlePtr rx [] (qvalue [] (m_queryIdServiceMap s) qid) r s"
proof -
  from assms indexOf_occurrence[of "rName r" "''._''"] have "indexOf (rName r) ''._'' < 0"
    by fastforce
  then show ?thesis
    by (simp add: resultsReady_branch_Ptr left_negative)
qed

lemma getItem_addItem:
  assumes "getItem nm st s = Some (Some a)"
  shows "addItem nm st s = Some (Some a, s)" "\<exists>it. heap s a = Some it \<and> itemName it = nm"
proof -
  from assms have c: "qcontains (m_serviceItemsMap s) st"
    by (auto simp: getItem_def split: if_splits)
  with assms obtain i where i: "findItem (heap s) nm (qvalue [] (m_serviceItemsMap s) st) = Some (Some i)"
    and a: "a = qvalue [] (m_serviceItemsMap s) st ! i"
    by (auto simp: getItem_def Let_def split: option.splits)
  from c i a show "addItem nm st s = Some (Some a, s)"
    by (simp add: addItem_def Let_def)
  from findItem_Some[OF i] a show "\<exists>it. heap s a = Some it \<and> itemName it = nm"
    by simp
qed

text \<open>
  Claim C2, amended: when a PTR answer with ttl > 0 names an instance that already exists
  with the same name and type, \<open>addItem\<close> returns the existing instance, the instance
  table is left as it is and no item is allocated; a new TXT and a new SRV sub-query on
  the name of the answer are started and registered against that instance.
\<close>

theorem ptr_existing_instance:
  assumes "rTtl r > 0"
    and "getItem (left (indexOf (rName r) ''._'') (rName r)) (qvalue [] (m_queryIdServiceMap s) qid) s
           = Some (Some a)"
    and "m_jdns s = Some j"
  shows "\<exists>s'. resultsReady_branch rx qid Ptr r s = Some (Some a, s') \<and>
           m_serviceItemsMap s' = m_serviceItemsMap s \<and> nextAddr s' = nextAddr s \<and>
           dom (heap s') = dom (heap s) \<and>
           startedQueries s' =
             started j @ [(idSource j (length (started j)), rName r, Txt),
                          (idSource j (Suc (length (started j))), rName r, Srv)] \<and>
           m_queryIdItemMap s' =
             qinsert (idSource j (Suc (length (started j)))) a
               (qinsert (idSource j (length (started j))) a (m_queryIdItemMap s))"
proof -
  from getItem_addItem[OF assms(2)] obtain it where
    add: "addItem (left (indexOf (rName r) ''._'') (rName r)) (qvalue [] (m_queryIdServiceMap s) qid) s
            = Some (Some a, s)"
    and it: "heap s a = Some it"
    by blast
  show ?thesis
    using assms(1,3) add it
    by (auto simp: resultsReady_branch_def Let_def startItemQuery_def jdns_queryStart_def
          item_modify_def startedQueries_def)
qed

text \<open>
  The amended claim C2 at the state \<open>resolving\<close> and a second PTR answer for \<open>x\<close>.
\<close>

theorem ptr_existing_instance_witness:
  "rTtl (answer ''x._h._tcp'' 120) > 0 \<and>
   getItem (left (indexOf (rName (answer ''x._h._tcp'' 120)) ''._'') (rName (answer ''x._h._tcp'' 120)))
     (qvalue [] (m_queryIdServiceMap resolving) 0) resolving = Some (Some 0) \<and>
   map_option (startedQueries \<circ> snd) (resultsReady_branch literalContains 0 Ptr (answer ''x._h._tcp'' 120) resolving)
     = Some [(0, ''_h._tcp'', Ptr), (1, ''x._h._tcp'', Txt), (2, ''x._h._tcp'', Srv),
             (3, ''x._h._tcp'', Txt), (4, ''x._h._tcp'', Srv)]"
  using ptr_existing_instance[of "answer ''x._h._tcp'' 120" resolving 0 0
      "\<lparr>idSource = int, started = [(0, ''_h._tcp'', Ptr), (1, ''x._h._tcp'', Txt), (2, ''x._h._tcp'', Srv)], cancelled = []\<rparr>"
      literalContains]
  by (auto simp: eval_defs)

text \<open>
  The amended claim C3 at the state \<open>scanning\<close> and the answer \<open>nodot\<close>: the instance
  table gets an item.
\<close>

theorem ptr_without_separator_witness:
  "(\<forall>pre post. rName (answer ''nodot'' 120) \<noteq> pre @ ''._'' @ post) \<and>
   resultsReady_branch literalContains 0 Ptr (answer ''nodot'' 120) scanning =
     handlePtr literalContains [] ''_h._tcp'' (answer ''nodot'' 120) scanning \<and>
   map_option (m_serviceItemsMap \<circ> snd) (handlePtr literalContains [] ''_h._tcp'' (answer ''nodot'' 120) scanning)
     = Some [(''_h._tcp'', [0])]"
proof -
  have n: "\<forall>pre post. rName (answer ''nodot'' 120) \<noteq> pre @ ''._'' @ post"
  proof (intro allI notI)
    fix pre post assume "rName (answer ''nodot'' 120) = pre @ ''._'' @ post"
    then have "CHR ''.'' \<in> set ''nodot''" by (simp add: answer_def)
    then show False by simp
  qed
  from ptr_without_separator[OF n, of literalContains 0 scanning] n show ?thesis
    by (simp add: eval_defs handlePtr_def)
qed


lemma forEach_list_all2:
  "forEach f xs = Some ys \<Longrightarrow> list_all2 (\<lambda>x y. f x = Some y) xs ys"
  by (induction xs arbitrary: ys) (auto split: option.splits)

lemma list_all2_concat:
  "list_all2 (list_all2 R) xss yss \<Longrightarrow> list_all2 R (concat xss) (concat yss)"
  by (induction xss yss rule: list_all2_induct) (auto intro: list_all2_appendI)

lemma forEach3_list_all2:
  assumes "forEach (forEach (forEach f)) L = Some L'"
  shows "list_all2 (\<lambda>x y. f x = Some y) (concat (concat L)) (concat (concat L'))"
proof -
  have "list_all2 (\<lambda>x y. forEach (forEach f) x = Some y) L L'"
    using assms by (rule forEach_list_all2)
  then have "list_all2 (list_all2 (\<lambda>x y. forEach f x = Some y)) L L'"
    by (rule list_all2_mono) (rule forEach_list_all2)
  then have "list_all2 (list_all2 (list_all2 (\<lambda>x y. f x = Some y))) L L'"
    by (rule list_all2_mono) (erule list_all2_mono, rule forEach_list_all2)
  then have "list_all2 (list_all2 (\<lambda>x y. f x = Some y)) (concat L) (concat L')"
    by (rule list_all2_concat)
  then show ?thesis
    by (rule list_all2_concat)
qed

lemma filterServiceDiscoveryItems_filter:
  "filterServiceDiscoveryItems rx h xs p q = Some l \<Longrightarrow>
     l = filter (\<lambda>a. case h a of None \<Rightarrow> False
                    | Some it \<Rightarrow> filterServiceDiscoveryItem rx it p \<and> filterServiceDiscoveryItem rx it q) xs"
  by (induction xs arbitrary: l) (auto split: option.splits)

lemma updateQuery_refreshed:
  "updateQuery rx (heap s) (m_filter s) st (instances s st) query = Some query' \<Longrightarrow>
     query' = refreshed rx s st query"
proof (cases "serviceType query = st")
  case False
  then show "updateQuery rx (heap s) (m_filter s) st (instances s st) query = Some query' \<Longrightarrow>
     query' = refreshed rx s st query"
    by (simp add: updateQuery_def refreshed_def)
next
  case True
  assume u: "updateQuery rx (heap s) (m_filter s) st (instances s st) query = Some query'"
  show "query' = refreshed rx s st query"
  proof (cases "queryType query = A")
    case True
    with u \<open>serviceType query = st\<close> show ?thesis
      by (auto simp: updateQuery_def refreshed_def projection_def)
  next
    case False
    with u \<open>serviceType query = st\<close> obtain l where
      l: "filterServiceDiscoveryItems rx (heap s) (instances s st) (m_filter s) (queryFilter query) = Some l"
      and q: "query' = query\<lparr>items := l\<rparr>"
      by (auto simp: updateQuery_def split: option.splits)
    from filterServiceDiscoveryItems_filter[OF l] have "l = filter (passes rx s query) (instances s st)"
      by (simp add: passes_def[abs_def])
    with q False \<open>serviceType query = st\<close> show ?thesis
      by (simp add: refreshed_def projection_def)
  qed
qed

lemma updateServiceType_refreshed:
  assumes "updateServiceType rx st s = Some s'" "qcontains (m_serviceItemsMap s) st"
  shows "list_all2 (\<lambda>query query'. query' = refreshed rx s st query) (allQueries s) (allQueries s')"
proof -
  from assms obtain L where L: "forEach (forEach (forEach
        (updateQuery rx (heap s) (m_filter s) st (instances s st)))) (m_serviceLists s) = Some L"
    and s': "s' = s\<lparr>m_serviceLists := L\<rparr>"
    by (auto simp: updateServiceType_def instances_def split: option.splits)
  from forEach3_list_all2[OF L] have
    "list_all2 (\<lambda>x y. updateQuery rx (heap s) (m_filter s) st (instances s st) x = Some y)
       (allQueries s) (allQueries s')"
    by (simp add: allQueries_def s')
  then show ?thesis
    by (rule list_all2_mono) (rule updateQuery_refreshed)
qed

text \<open>
  Claim C4, amended: at the end of the handling of an answer, the lists of the user's
  queries are refreshed only when the item of the answer has no outstanding requests
  (otherwise the state is left as it is); the refresh then sets the list of every query of
  the item's service type to the projection of all instances under that type, which
  depends on the filters and not on the outstanding requests of the instances.
\<close>

theorem resolution_gating:
  assumes "resultsReady_resolved rx item s = Some s'"
  shows "((item = None \<or> (\<exists>a it. item = Some a \<and> heap s a = Some it \<and> outstandingRequests it \<noteq> {}))
            \<longrightarrow> s' = s) \<and>
         (\<forall>a it. item = Some a \<and> heap s a = Some it \<and> outstandingRequests it = {} \<and>
                 qcontains (m_serviceItemsMap s) (itemType it) \<longrightarrow>
            list_all2 (\<lambda>query query'. query' = refreshed rx s (itemType it) query)
              (allQueries s) (allQueries s'))"
proof (intro conjI allI impI)
  assume "item = None \<or> (\<exists>a it. item = Some a \<and> heap s a = Some it \<and> outstandingRequests it \<noteq> {})"
  with assms show "s' = s"
    by (auto simp: resultsReady_resolved_def split: if_splits)
next
  fix a it
  assume h: "item = Some a \<and> heap s a = Some it \<and> outstandingRequests it = {} \<and>
             qcontains (m_serviceItemsMap s) (itemType it)"
  with assms obtain s1 where s1: "updateServiceType rx (itemType it) s = Some s1"
    and m: "item_modify (Some a) (\<lambda>it. it\<lparr>updated := True, errorCount := 0\<rparr>) s1 = Some s'"
    by (auto simp: resultsReady_resolved_def updateItem_def split: Option.bind_splits)
  from m have "allQueries s' = allQueries s1"
    by (auto simp: item_modify_effect allQueries_def)
  with updateServiceType_refreshed[OF s1] h
  show "list_all2 (\<lambda>query query'. query' = refreshed rx s (itemType it) query) (allQueries s) (allQueries s')"
    by simp
qed

text \<open>
  The amended claim C4: the item of \<open>resolving\<close> has outstanding requests and nothing
  changes; once an item has none, the query lists it together with an item that still
  has an outstanding request.
\<close>

theorem resolution_gating_witness:
  "resultsReady_resolved literalContains (Some 0) resolving = Some resolving \<and>
   heap resolving 0 = Some (newServiceDiscoveryItem\<lparr>itemName := ''x'', itemType := ''_h._tcp'',
                                               outstandingRequests := {1, 2}\<rparr>) \<and>
   map_option (map items \<circ> allQueries)
     (resultsReady_resolved literalContains (Some 0)
        (resolving\<lparr>heap := [0 \<mapsto> newServiceDiscoveryItem\<lparr>itemName := ''x'', itemType := ''_h._tcp''\<rparr>,
                            1 \<mapsto> newServiceDiscoveryItem\<lparr>itemName := ''y'', itemType := ''_h._tcp'',
                                 outstandingRequests := {3}\<rparr>],
                   m_serviceItemsMap := [(''_h._tcp'', [0, 1])]\<rparr>)) = Some [[0, 1]]"
  using resolution_gating[of literalContains "Some 0" resolving resolving]
  by (simp add: eval_defs)



lemma txtRecords_loop_foldl:
  "txtRecords_loop rx flts txts = foldl (\<lambda>txts pattern. filter (rx pattern) txts) txts flts"
  by (induction flts arbitrary: txts) simp_all

lemma containsWildcard_iff:
  "containsWildcard p str \<longleftrightarrow> (\<exists>u v w. str = u @ v @ w \<and> glob p v)"
proof
  assume "containsWildcard p str"
  then obtain y v where "suffix y str" "prefix v y" "glob p v"
    by (auto simp: containsWildcard_def list_ex_iff)
  then obtain u w where "str = u @ y" "y = v @ w" by (auto simp: suffix_def prefix_def)
  with \<open>glob p v\<close> have "str = u @ v @ w \<and> glob p v" by simp
  then show "\<exists>u v w. str = u @ v @ w \<and> glob p v" by blast
next
  assume "\<exists>u v w. str = u @ v @ w \<and> glob p v"
  then obtain u v w where s: "str = u @ v @ w" and g: "glob p v" by blast
  have "v @ w \<in> set (suffixes str)" "v \<in> set (prefixes (v @ w))"
    by (simp_all add: s suffix_def)
  with g have "\<exists>y \<in> set (suffixes str). \<exists>x \<in> set (prefixes y). glob p x" by blast
  then show "containsWildcard p str"
    by (simp add: containsWildcard_def list_ex_iff)
qed

lemma wildcards_literal:
  "set p \<inter> {CHR ''*'', CHR ''?'', CHR ''['', CHR 0x5C} = {} \<Longrightarrow> wildcards p = Some (map Lit p)"
  by (induction p) auto

lemma wmatch_literal: "wmatch (map Lit p) str \<longleftrightarrow> str = p"
proof (induction p arbitrary: str)
  case Nil
  then show ?case by simp
next
  case (Cons c p)
  then show ?case by (cases str) auto
qed

lemma indexOf_prefix: "indexOf (needle @ post) needle = 0"
proof (cases "needle @ post")
  case Nil
  then show ?thesis by simp
next
  case (Cons c cs)
  have "take (length needle) (needle @ post) = needle" by simp
  with Cons show ?thesis by simp
qed

lemma indexOf_found: "0 \<le> indexOf (pre @ needle @ post) needle"
  by (induction pre) (simp_all add: indexOf_prefix Let_def)

text \<open>
  On a pattern without wildcard characters the matcher of the code is the substring
  test, which the examples use.
\<close>

lemma containsWildcard_literal:
  assumes "set p \<inter> {CHR ''*'', CHR ''?'', CHR ''['', CHR 0x5C} = {}"
  shows "containsWildcard p str = literalContains p str"
proof -
  have "glob p v \<longleftrightarrow> v = p" for v
    by (simp add: glob_def wildcards_literal[OF assms] wmatch_literal)
  then have "containsWildcard p str \<longleftrightarrow> (\<exists>u w. str = u @ p @ w)"
    by (simp add: containsWildcard_iff)
  also have "\<dots> \<longleftrightarrow> literalContains p str"
    unfolding literalContains_def using indexOf_occurrence[of str p] indexOf_found[of _ p]
    by auto
  finally show ?thesis .
qed

lemma glob_containsWildcard: "glob p str \<Longrightarrow> containsWildcard p str"
  unfolding containsWildcard_iff by (intro exI[of _ "[]"] exI[of _ str]) simp

lemma foldl_filter_mono:
  assumes "\<And>p x. P p x \<Longrightarrow> Q p x"
  shows "set xs \<subseteq> set ys \<Longrightarrow>
    set (foldl (\<lambda>txts p. filter (P p) txts) xs ps) \<subseteq> set (foldl (\<lambda>txts p. filter (Q p) txts) ys ps)"
proof (induction ps arbitrary: xs ys)
  case Nil
  then show ?case by simp
next
  case (Cons p ps)
  from Cons.prems assms have "set (filter (P p) xs) \<subseteq> set (filter (Q p) ys)" by auto
  from Cons.IH[OF this] show ?case by simp
qed

text \<open>
  Claim C5, as stated, fails: the name pattern \<open>prod\<close> lets the instance \<open>my-prod-1\<close>
  pass, whose name does not match the glob \<open>prod\<close>; the code searches the name for a
  match.
\<close>

theorem glob_anchoring_counterexample:
  "filterServiceDiscoveryItem containsWildcard
     (newServiceDiscoveryItem\<lparr>itemName := ''my-prod-1''\<rparr>)
     \<lparr>filterName = ''prod'', filterTxtRecords = []\<rparr>
   \<and> \<not> matches
     (newServiceDiscoveryItem\<lparr>itemName := ''my-prod-1''\<rparr>)
     \<lparr>filterName = ''prod'', filterTxtRecords = []\<rparr>"
proof -
  have "''my-prod-1'' = ''my-'' @ ''prod'' @ ''-1'' \<and> glob ''prod'' ''prod''"
    by (simp add: glob_def)
  then have "containsWildcard ''prod'' ''my-prod-1''"
    unfolding containsWildcard_iff by blast
  moreover have "\<not> glob ''prod'' ''my-prod-1''" by (simp add: glob_def)
  ultimately show ?thesis
    by (simp add: filterServiceDiscoveryItem_def matches_def newServiceDiscoveryItem_def)
qed

text \<open>
  Claim C5, amended: for every instance and filter, the filter predicate of the code
  holds iff the name pattern is empty or some part of the instance's name matches the
  glob, and the TXT pattern list is empty or applying the patterns from left to right as
  successive filters, each keeping the TXT records of which some part matches the glob,
  leaves a non-empty list. It holds in particular whenever the name and the TXT records
  match the globs as a whole.
\<close>

theorem filter_contains:
  "(filterServiceDiscoveryItem containsWildcard instance flt \<longleftrightarrow>
      (filterName flt = [] \<or>
       (\<exists>u v w. itemName instance = u @ v @ w \<and> glob (filterName flt) v)) \<and>
      (filterTxtRecords flt = [] \<or>
       foldl (\<lambda>txts pattern. filter (\<lambda>txt. \<exists>u v w. txt = u @ v @ w \<and> glob pattern v) txts)
         (txtRecords instance) (filterTxtRecords flt) \<noteq> [])) \<and>
   (matches instance flt \<longrightarrow> filterServiceDiscoveryItem containsWildcard instance flt)"
proof -
  have c: "containsWildcard p = (\<lambda>txt. \<exists>u v w. txt = u @ v @ w \<and> glob p v)" for p
    by (rule ext) (rule containsWildcard_iff)
  have 1: "filterServiceDiscoveryItem containsWildcard instance flt \<longleftrightarrow>
      (filterName flt = [] \<or> containsWildcard (filterName flt) (itemName instance)) \<and>
      (filterTxtRecords flt = [] \<or>
       foldl (\<lambda>txts pattern. filter (containsWildcard pattern) txts)
         (txtRecords instance) (filterTxtRecords flt) \<noteq> [])"
    by (auto simp: filterServiceDiscoveryItem_def txtRecords_loop_foldl)
  have 2: "filterServiceDiscoveryItem containsWildcard instance flt" if m: "matches instance flt"
  proof -
    from m have "filterName flt = [] \<or> containsWildcard (filterName flt) (itemName instance)"
      by (auto simp: matches_def intro: glob_containsWildcard)
    moreover have "foldl (\<lambda>txts pattern. filter (containsWildcard pattern) txts)
         (txtRecords instance) (filterTxtRecords flt) \<noteq> []" if "filterTxtRecords flt \<noteq> []"
    proof -
      from m that have "set (foldl (\<lambda>txts pattern. filter (glob pattern) txts)
         (txtRecords instance) (filterTxtRecords flt)) \<noteq> {}"
        by (simp add: matches_def)
      moreover have "set (foldl (\<lambda>txts pattern. filter (glob pattern) txts)
         (txtRecords instance) (filterTxtRecords flt)) \<subseteq>
        set (foldl (\<lambda>txts pattern. filter (containsWildcard pattern) txts)
         (txtRecords instance) (filterTxtRecords flt))"
        by (rule foldl_filter_mono) (simp_all add: glob_containsWildcard)
      ultimately show ?thesis by auto
    qed
    ultimately show ?thesis unfolding 1 by blast
  qed
  from 1 2 show ?thesis unfolding c by blast
qed

text \<open>
  The amended claim C5 at the filter \<open>prod-*\<close> with the TXT pattern \<open>uuid=*\<close>: the
  instance \<open>prod-1\<close> matches and passes, the instance \<open>dev-1\<close> does not pass.
\<close>

theorem filter_contains_witness:
  "matches
     (newServiceDiscoveryItem\<lparr>itemName := ''prod-1'', txtRecords := [''path=/cgi'', ''uuid=7'']\<rparr>)
     \<lparr>filterName = ''prod-*'', filterTxtRecords = [''uuid=*'']\<rparr>
   \<and> filterServiceDiscoveryItem containsWildcard
     (newServiceDiscoveryItem\<lparr>itemName := ''prod-1'', txtRecords := [''path=/cgi'', ''uuid=7'']\<rparr>)
     \<lparr>filterName = ''prod-*'', filterTxtRecords = [''uuid=*'']\<rparr>
   \<and> \<not> filterServiceDiscoveryItem containsWildcard
     (newServiceDiscoveryItem\<lparr>itemName := ''dev-1'', txtRecords := [''path=/cgi'', ''uuid=7'']\<rparr>)
     \<lparr>filterName = ''prod-*'', filterTxtRecords = [''uuid=*'']\<rparr>"
  using filter_contains [of
     "newServiceDiscoveryItem\<lparr>itemName := ''prod-1'', txtRecords := [''path=/cgi'', ''uuid=7'']\<rparr>"
     "\<lparr>filterName = ''prod-*'', filterTxtRecords = [''uuid=*'']\<rparr>"]
  by (simp add: matches_def glob_def newServiceDiscoveryItem_def filterServiceDiscoveryItem_def
      containsWildcard_def)

lemma forKeys_id: "(\<And>x s. f x s = Some s) \<Longrightarrow> forKeys f xs s = Some s"
  by (induction xs) simp_all

lemma resultsReady_record_NoType: "resultsReady_record rx qid NoType r s = Some s"
  by (simp add: resultsReady_record_def resultsReady_branch_def resultsReady_resolved_def)

text \<open>
  Claim C7: a results callback for a query id that the registry does not hold is
  discarded; it returns with the state unchanged, so no instance table, no registry map
  and no list of a user query is touched.
\<close>

theorem unknown_id_discarded:
  "\<not> qcontains (m_queryIdTypeMap s) qid \<Longrightarrow> resultsReady rx qid answerRecords s = Some s"
proof -
  assume "\<not> qcontains (m_queryIdTypeMap s) qid"
  then have "map_of (m_queryIdTypeMap s) qid = None"
    by (simp add: qcontains_def map_of_eq_None_iff)
  then have "qvalue NoType (m_queryIdTypeMap s) qid = NoType"
    by (simp add: qvalue_def)
  then show ?thesis
    by (simp add: resultsReady_def forKeys_id resultsReady_record_NoType)
qed

text \<open>Claim C7 at the state \<open>resolving\<close>, whose registry holds the ids 0, 1 and 2.\<close>

theorem unknown_id_discarded_witness:
  "\<not> qcontains (m_queryIdTypeMap resolving) 7 \<and>
   resultsReady literalContains 7 [answer ''x._h._tcp'' 120, answer ''y._h._tcp'' 0] resolving
     = Some resolving"
  using unknown_id_discarded [of resolving 7 literalContains
      "[answer ''x._h._tcp'' 120, answer ''y._h._tcp'' 0]"]
  by (simp add: resolving_def qcontains_def)

subsection \<open>Answers and the invariants\<close>

lemma forKeys_rule:
  assumes "forKeys f ks s = Some s'" "P s"
    and "\<And>k t t'. k \<in> set ks \<Longrightarrow> P t \<Longrightarrow> f k t = Some t' \<Longrightarrow> P t'"
  shows "P s'"
  using assms
proof (induction ks arbitrary: s)
  case Nil
  then show ?case by simp
next
  case (Cons k ks)
  from Cons.prems(1) obtain s1 where 1: "f k s = Some s1" and 2: "forKeys f ks s1 = Some s'"
    by (auto split: option.splits)
  have 3: "P s1" by (rule Cons.prems(3)[OF _ Cons.prems(2) 1]) simp
  show ?case
    by (rule Cons.IH[OF 2 3]) (rule Cons.prems(3), auto)
qed

lemma updateServiceType_inv:
  assumes "updateServiceType rx st s = Some s'"
  shows "core X s' = core X s" "ctl s' = ctl s" "m_queryIdServiceMap s' = m_queryIdServiceMap s"
    "m_serviceItemsMap s' = m_serviceItemsMap s" "heap s' = heap s"
    "m_queryIdTypeMap s' = m_queryIdTypeMap s" "m_queryIdItemMap s' = m_queryIdItemMap s"
    "m_jdns s' = m_jdns s" "m_serviceTypeMap s' = m_serviceTypeMap s"
proof -
  from updateServiceType_effect[OF assms] obtain l where "s' = s\<lparr>m_serviceLists := l\<rparr>" ..
  then show "core X s' = core X s" "ctl s' = ctl s" "m_queryIdServiceMap s' = m_queryIdServiceMap s"
    "m_serviceItemsMap s' = m_serviceItemsMap s" "heap s' = heap s"
    "m_queryIdTypeMap s' = m_queryIdTypeMap s" "m_queryIdItemMap s' = m_queryIdItemMap s"
    "m_jdns s' = m_jdns s" "m_serviceTypeMap s' = m_serviceTypeMap s"
    by simp_all
qed

lemma resultsReady_resolved_inv:
  assumes "resultsReady_resolved rx item s = Some s'" "core X s"
  shows "core X s'" "ctl s' = ctl s" "m_queryIdServiceMap s' = m_queryIdServiceMap s"
proof -
  have "core X s' \<and> ctl s' = ctl s \<and> m_queryIdServiceMap s' = m_queryIdServiceMap s"
  proof (cases item)
    case None
    with assms show ?thesis by (simp add: resultsReady_resolved_def)
  next
    case (Some a)
    with assms(1) obtain it where it: "heap s a = Some it"
      by (auto simp: resultsReady_resolved_def split: option.splits)
    show ?thesis
    proof (cases "outstandingRequests it = {}")
      case False
      with assms Some it show ?thesis by (simp add: resultsReady_resolved_def)
    next
      case True
      with assms(1) Some it obtain s1 where
        u: "updateServiceType rx (itemType it) s = Some s1" and
        m: "item_modify (Some a) (\<lambda>it. it\<lparr>updated := True, errorCount := 0\<rparr>) s1 = Some s'"
        by (auto simp: resultsReady_resolved_def updateItem_def split: Option.bind_splits)
      from updateServiceType_inv(1)[OF u, of X] assms(2) have c1: "core X s1" by simp
      from item_modify_inv[OF m c1] updateServiceType_inv(2,3)[OF u]
      show ?thesis by simp
    qed
  qed
  then show "core X s'" "ctl s' = ctl s" "m_queryIdServiceMap s' = m_queryIdServiceMap s"
    by simp_all
qed

lemma finishItemQuery_inv:
  assumes "finishItemQuery qid s = Some (item, s')" "core X s"
  shows "core X s'" "ctl s' = ctl s" "m_queryIdServiceMap s' = m_queryIdServiceMap s"
    "\<exists>a. item = Some a \<and> a \<in> dom (heap s') \<and> (\<exists>e \<in> set (m_serviceItemsMap s'). a \<in> set (snd e))"
proof -
  from assms(1) obtain a where q: "map_of (m_queryIdItemMap s) qid = Some a"
    and h: "heap s a \<noteq> None" and i: "item = Some a" and s': "s' = requestFinished qid a s"
    by (auto simp: finishItemQuery_eq split: option.splits if_splits)
  from h have d: "a \<in> dom (heap s)" by auto
  from assms(2) have "requests_owned s" by (simp add: core_def registry_ok_def)
  moreover from q have "(qid, a) \<in> set (m_queryIdItemMap s)" by (rule map_of_SomeD)
  ultimately have o: "\<exists>e \<in> set (m_serviceItemsMap s). a \<in> set (snd e)"
    unfolding requests_owned_def by (auto dest!: bspec intro: bexI[of _ "(x, y)" for x y])
  note f = requestFinished_core[OF assms(2) d, of qid]
  show "core X s'" "ctl s' = ctl s" "m_queryIdServiceMap s' = m_queryIdServiceMap s"
    using f by (simp_all add: s')
  show "\<exists>a. item = Some a \<and> a \<in> dom (heap s') \<and> (\<exists>e \<in> set (m_serviceItemsMap s'). a \<in> set (snd e))"
    using f(4,5) d o i by (simp add: s')
qed

lemma startItemQuery_inv:
  assumes "startItemQuery nm qt (Some a) s = Some s'" "core X s"
    "\<exists>e \<in> set (m_serviceItemsMap s). a \<in> set (snd e)" "qt \<noteq> Ptr"
  shows "core X s'" "ctl s' = ctl s" "m_queryIdServiceMap s' = m_queryIdServiceMap s"
    "m_serviceItemsMap s' = m_serviceItemsMap s" "dom (heap s') = dom (heap s)"
proof -
  from assms(1) have j: "m_jdns s \<noteq> None" and h: "a \<in> dom (heap s)"
    and s': "s' = requestStarted nm qt a s"
    by (auto simp: startItemQuery_eq split: if_splits)
  note f = requestStarted_core[OF assms(2) j h assms(3,4), of nm]
  show "core X s'" "ctl s' = ctl s" "m_queryIdServiceMap s' = m_queryIdServiceMap s"
    "m_serviceItemsMap s' = m_serviceItemsMap s" "dom (heap s') = dom (heap s)"
    using f by (simp_all add: s')
qed

lemma scan_bound:
  assumes "core X s" "qcontains (m_queryIdServiceMap s) qid"
  shows "qvalue [] (m_queryIdServiceMap s) qid \<in> snd ` set (m_queryIdServiceMap s)"
    "qcontains (m_serviceItemsMap s) (qvalue [] (m_queryIdServiceMap s) qid)"
proof -
  from assms(1) have k: "keys_distinct s" and sk: "scans_known s"
    by (simp_all add: core_def registry_ok_def)
  from k assms(2) have m: "(qid, qvalue [] (m_queryIdServiceMap s) qid) \<in> set (m_queryIdServiceMap s)"
    by (simp add: keys_distinct_def qvalue_in)
  then show "qvalue [] (m_queryIdServiceMap s) qid \<in> snd ` set (m_queryIdServiceMap s)"
    by force
  from sk m show "qcontains (m_serviceItemsMap s) (qvalue [] (m_queryIdServiceMap s) qid)"
    unfolding scans_known_def by fastforce
qed

lemma resultsReady_branch_inv:
  assumes b: "resultsReady_branch rx qid ty r s = Some (item, s')" and c: "core {} s"
    and p: "ty = Ptr \<longrightarrow> qcontains (m_queryIdServiceMap s) qid"
  shows "core {} s' \<and> ctl s' = ctl s \<and> m_queryIdServiceMap s' = m_queryIdServiceMap s"
proof -
  let ?st = "qvalue [] (m_queryIdServiceMap s) qid"
  let ?nm = "left (indexOf (rName r) ''._'') (rName r)"
  consider (is_ptr_add) "ty = Ptr" "rTtl r > 0" | (is_ptr_remove) "ty = Ptr" "\<not> rTtl r > 0"
    | (is_txt) "ty = Txt" | (is_srv) "ty = Srv" | (is_addr) "ty = A \<or> ty = Aaaa"
    | (is_other) "ty \<noteq> Ptr" "ty \<noteq> Txt" "ty \<noteq> Srv" "ty \<noteq> A" "ty \<noteq> Aaaa"
    by blast
  then show ?thesis
  proof cases
    case is_ptr_add
    with b obtain p1 s1 s2 where
      1: "addItem ?nm ?st s = Some (p1, s1)" and
      2: "startItemQuery (rName r) Txt p1 s1 = Some s2" and
      3: "startItemQuery (rName r) Srv p1 s2 = Some s'"
      by (auto simp: resultsReady_branch_def Let_def split: Option.bind_splits)
    from p is_ptr_add have q: "qcontains (m_queryIdServiceMap s) qid" by simp
    note sb = scan_bound[OF c q]
    note a = addItem_inv[OF 1 c disjI2[OF sb(1)]]
    from a(5)[OF sb(2)] obtain a1 where p1: "p1 = Some a1" and
      o1: "\<exists>e \<in> set (m_serviceItemsMap s1). a1 \<in> set (snd e)" by blast
    note t = startItemQuery_inv[OF 2[unfolded p1] a(1) o1]
    have o2: "\<exists>e \<in> set (m_serviceItemsMap s2). a1 \<in> set (snd e)"
      using o1 t(4) by simp
    note u = startItemQuery_inv[OF 3[unfolded p1] t(1) o2]
    from u(1,2,3) t(2,3) a(2,3) show ?thesis by simp
  next
    case is_ptr_remove
    with b have "removeItem rx ?nm ?st s = Some s'"
      by (auto simp: resultsReady_branch_def Let_def split: Option.bind_splits)
    from removeItem_inv(1,2,3)[OF this c] show ?thesis by simp
  next
    case is_txt
    with b obtain p1 s1 where
      1: "finishItemQuery qid s = Some (p1, s1)" and
      2: "item_modify p1 (\<lambda>it. it\<lparr>txtRecords := rTexts r\<rparr>) s1 = Some s'"
      by (auto simp: resultsReady_branch_def split: Option.bind_splits)
    note f = finishItemQuery_inv[OF 1 c]
    from item_modify_inv(1,2,3)[OF 2 f(1)] f(2,3) show ?thesis by simp
  next
    case is_srv
    with b obtain p1 s1 s2 where
      1: "finishItemQuery qid s = Some (p1, s1)" and
      2: "startItemQuery (rName r) A p1 s1 = Some s2" and
      3: "item_modify p1 (\<lambda>it. it\<lparr>hostName := rName r, port := rPort r\<rparr>) s2 = Some s'"
      by (auto simp: resultsReady_branch_def split: Option.bind_splits)
    note f = finishItemQuery_inv[OF 1 c]
    from f(4) obtain a1 where p1: "p1 = Some a1" and
      o1: "\<exists>e \<in> set (m_serviceItemsMap s1). a1 \<in> set (snd e)" by blast
    note t = startItemQuery_inv[OF 2[unfolded p1] f(1) o1]
    from item_modify_inv(1,2,3)[OF 3 t(1)] t(2,3) f(2,3) show ?thesis by simp
  next
    case is_addr
    with b obtain p1 s1 where
      1: "finishItemQuery qid s = Some (p1, s1)" and
      2: "item_modify p1 (\<lambda>it. it\<lparr>hostAddress := rAddress r\<rparr>) s1 = Some s'"
      by (auto simp: resultsReady_branch_def split: Option.bind_splits)
    note f = finishItemQuery_inv[OF 1 c]
    from item_modify_inv(1,2,3)[OF 2 f(1)] f(2,3) show ?thesis by simp
  next
    case is_other
    with b have "s' = s" by (simp add: resultsReady_branch_def)
    with c show ?thesis by simp
  qed
qed

lemma resultsReady_record_inv:
  assumes "resultsReady_record rx qid ty r s = Some s'" "core {} s"
    "ty = Ptr \<longrightarrow> qcontains (m_queryIdServiceMap s) qid"
  shows "core {} s' \<and> ctl s' = ctl s \<and> m_queryIdServiceMap s' = m_queryIdServiceMap s"
proof -
  from assms(1) obtain item s1 where
    1: "resultsReady_branch rx qid ty r s = Some (item, s1)" and
    2: "resultsReady_resolved rx item s1 = Some s'"
    by (auto simp: resultsReady_record_def split: Option.bind_splits)
  from resultsReady_branch_inv[OF 1 assms(2,3)] have
    b: "core {} s1" "ctl s1 = ctl s" "m_queryIdServiceMap s1 = m_queryIdServiceMap s"
    by simp_all
  from resultsReady_resolved_inv[OF 2 b(1)] b(2,3) show ?thesis by simp
qed

lemma ptr_scan:
  assumes "core X s" "qvalue NoType (m_queryIdTypeMap s) qid = Ptr"
  shows "qcontains (m_queryIdServiceMap s) qid"
proof -
  from assms(1) have tb: "types_bound s" by (simp add: core_def registry_ok_def)
  from assms(2) have "map_of (m_queryIdTypeMap s) qid = Some Ptr"
    by (simp add: qvalue_def split: option.splits)
  then have "(qid, Ptr) \<in> set (m_queryIdTypeMap s)" by (rule map_of_SomeD)
  with tb show ?thesis unfolding types_bound_def by fastforce
qed

text \<open>
  An answer from the backend keeps the invariants, the settings and the scans.
\<close>

lemma resultsReady_inv:
  assumes "resultsReady rx qid rs s = Some s'" "core {} s"
  shows "core {} s'" "ctl s' = ctl s" "m_queryIdServiceMap s' = m_queryIdServiceMap s"
proof -
  let ?ty = "qvalue NoType (m_queryIdTypeMap s) qid"
  let ?P = "\<lambda>t. core {} t \<and> ctl t = ctl s \<and> m_queryIdServiceMap t = m_queryIdServiceMap s"
  from assms(1) have f: "forKeys (resultsReady_record rx qid ?ty) rs s = Some s'"
    by (simp add: resultsReady_def)
  have "?P s'"
  proof (rule forKeys_rule[OF f, of ?P])
    show "?P s" using assms(2) by simp
  next
    fix k t t'
    assume P: "?P t" and r: "resultsReady_record rx qid ?ty k t = Some t'"
    have "?ty = Ptr \<longrightarrow> qcontains (m_queryIdServiceMap t) qid"
      using ptr_scan[OF assms(2)] P by simp
    from resultsReady_record_inv[OF r _ this] P show "?P t'" by simp
  qed
  then show "core {} s'" "ctl s' = ctl s" "m_queryIdServiceMap s' = m_queryIdServiceMap s"
    by simp_all
qed

subsection \<open>Loops over the service types\<close>

text \<open>
  Without a scan there are no instances, hence no sub-queries and no record types: the
  engine is quiescent.
\<close>

lemma core_no_scans:
  assumes "core {} s" "m_queryIdServiceMap s = []"
  shows "quiescent s"
proof -
  from assms(1) have r: "registry_ok s" and sc: "items_scanned {} s" by (simp_all add: core_def)
  note d = registry_okD[OF r]
  have l: "\<forall>e \<in> set (m_serviceItemsMap s). snd e = []"
    using sc assms(2) unfolding items_scanned_def by auto
  have q: "m_queryIdItemMap s = []"
  proof (cases "m_queryIdItemMap s")
    case (Cons p ps)
    then have "p \<in> set (m_queryIdItemMap s)" by simp
    with d(5) obtain e where "e \<in> set (m_serviceItemsMap s)" "snd p \<in> set (snd e)"
      unfolding requests_owned_def by blast
    with l show ?thesis by auto
  qed simp
  have t: "m_queryIdTypeMap s = []"
  proof (cases "m_queryIdTypeMap s")
    case (Cons p ps)
    then have "p \<in> set (m_queryIdTypeMap s)" by simp
    with d(4) have "qcontains (m_queryIdServiceMap s) (fst p) \<or> qcontains (m_queryIdItemMap s) (fst p)"
      unfolding types_bound_def by blast
    with q assms(2) show ?thesis by (simp add: qcontains_def)
  qed simp
  from l q t assms(2) show ?thesis by (simp add: quiescent_def)
qed

lemma core_rebase:
  assumes "core X s" "quiescent s"
    and "m_serviceItemsMap s' = m_serviceItemsMap s" "m_queryIdTypeMap s' = []"
    and "m_queryIdServiceMap s' = []" "m_queryIdItemMap s' = []"
    and "heap s' = heap s" "nextAddr s' = nextAddr s"
    and "\<forall>src n. bk (m_jdns s') = Some (src, n) \<longrightarrow> inj src"
  shows "core X s'"
proof -
  from assms(1) have r: "registry_ok s" and h: "heap_ok s" and sc: "items_scanned X s"
    by (simp_all add: core_def)
  note d = registry_okD[OF r]
  have 1: "keys_distinct s'" using d(1) assms(3,5) by (simp add: keys_distinct_def)
  have 2: "scans_known s'" using assms(5) by (simp add: scans_known_def)
  have 3: "scan_unique s'" using assms(5) by (simp add: scan_unique_def)
  have 4: "types_bound s'" using assms(4) by (simp add: types_bound_def)
  have 5: "requests_owned s'" using assms(6) by (simp add: requests_owned_def)
  have 6: "ids_issued s'" using assms(4,5,6,9) by (simp add: ids_issued_def qcontains_def)
  have H: "heap_ok s'" using h assms(3,7,8) by (simp add: heap_ok_def)
  have S: "items_scanned X s'" using assms(2,3) by (simp add: items_scanned_def quiescent_def)
  from 1 2 3 4 5 6 H S show ?thesis by (simp add: core_def registry_ok_def)
qed

lemma core_empty:
  assumes "m_serviceItemsMap s = []" "m_queryIdTypeMap s = []" "m_queryIdServiceMap s = []"
    "m_queryIdItemMap s = []" "m_jdns s = None"
  shows "core X s" "quiescent s"
  using assms
  by (simp_all add: core_def registry_ok_def inv_defs heap_ok_def quiescent_def bk_def qcontains_def)

lemma startQueries_inv:
  assumes "startQueries s = Some s'" "core {} s"
  shows "core {} s'" "ctl s' = ctl s" "m_serviceItemsMap s' = m_serviceItemsMap s"
    "m_serviceLists s' = m_serviceLists s"
proof -
  let ?P = "\<lambda>t. core {} t \<and> ctl t = ctl s \<and> m_serviceItemsMap t = m_serviceItemsMap s \<and>
    m_serviceLists t = m_serviceLists s"
  from assms(1) have f: "forKeys startQuery (qkeys (m_serviceItemsMap s)) s = Some s'"
    by (simp add: startQueries_def)
  have "?P s'"
  proof (rule forKeys_rule[OF f, of ?P])
    show "?P s" using assms(2) by simp
  next
    fix k t t'
    assume k: "k \<in> set (qkeys (m_serviceItemsMap s))" and P: "?P t" and r: "startQuery k t = Some t'"
    from k P have "qcontains (m_serviceItemsMap t) k" by (simp add: qcontains_def qkeys_def)
    from startQuery_inv(1-4)[OF r _ this, of "{}"] P show "?P t'" by simp
  qed
  then show "core {} s'" "ctl s' = ctl s" "m_serviceItemsMap s' = m_serviceItemsMap s"
    "m_serviceLists s' = m_serviceLists s"
    by simp_all
qed

lemma unicastLookup_inv:
  assumes "unicastLookup rx s = Some s'" "core {} s"
  shows "core {} s'" "ctl s' = ctl s"
proof -
  let ?P = "\<lambda>t. core {} t \<and> ctl t = ctl s"
  from assms(1) have f: "forKeys (refreshQuery rx) (qkeys (m_serviceItemsMap s)) s = Some s'"
    by (simp add: unicastLookup_def)
  have "?P s'"
  proof (rule forKeys_rule[OF f, of ?P])
    show "?P s" using assms(2) by simp
  next
    fix k t t'
    assume P: "?P t" and r: "refreshQuery rx k t = Some t'"
    from refreshQuery_inv(1,2)[OF r] P show "?P t'" by simp
  qed
  then show "core {} s'" "ctl s' = ctl s" by simp_all
qed

lemma stopQuery_loop_inv:
  "forKeys (stopQuery rx) ks s = Some s' \<Longrightarrow> core {} s \<Longrightarrow>
     core {} s' \<and> ctl s' = ctl s \<and>
     fst ` set (m_serviceItemsMap s') = fst ` set (m_serviceItemsMap s) \<and>
     snd ` set (m_queryIdServiceMap s') \<subseteq> snd ` set (m_queryIdServiceMap s) - set ks"
proof (induction ks arbitrary: s)
  case Nil
  then show ?case by simp
next
  case (Cons k ks)
  from Cons.prems(1) obtain s1 where 1: "stopQuery rx k s = Some s1"
    and 2: "forKeys (stopQuery rx) ks s1 = Some s'"
    by (auto split: option.splits)
  note a = stopQuery_inv[OF 1 Cons.prems(2)]
  note b = Cons.IH[OF 2 a(1)]
  from b a(2,3) have "core {} s'" "ctl s' = ctl s"
    "fst ` set (m_serviceItemsMap s') = fst ` set (m_serviceItemsMap s)"
    by simp_all
  moreover from b have "snd ` set (m_queryIdServiceMap s') \<subseteq> snd ` set (m_queryIdServiceMap s1) - set ks"
    by simp
  with a(4,5) have
    "snd ` set (m_queryIdServiceMap s') \<subseteq> snd ` set (m_queryIdServiceMap s) - set (k # ks)"
    unfolding list.set by blast
  ultimately show ?case by simp
qed

lemma stopQueries_inv:
  assumes "stopQueries rx s = Some s'" "core {} s"
  shows "core {} s'" "ctl s' = ctl s" "quiescent s'"
    "fst ` set (m_serviceItemsMap s') = fst ` set (m_serviceItemsMap s)"
proof -
  from assms(1) have f: "forKeys (stopQuery rx) (qkeys (m_serviceItemsMap s)) s = Some s'"
    by (simp add: stopQueries_def)
  note a = stopQuery_loop_inv[OF f assms(2)]
  from assms(2) have "scans_known s" by (simp add: core_def registry_ok_def)
  then have "snd ` set (m_queryIdServiceMap s) \<subseteq> set (qkeys (m_serviceItemsMap s))"
    unfolding scans_known_def by (auto simp: qcontains_def qkeys_def)
  moreover from a have "snd ` set (m_queryIdServiceMap s') \<subseteq>
      snd ` set (m_queryIdServiceMap s) - set (qkeys (m_serviceItemsMap s))" by simp
  ultimately have "snd ` set (m_queryIdServiceMap s') \<subseteq> {}" by blast
  then have e: "m_queryIdServiceMap s' = []" by simp
  from a show "core {} s'" "ctl s' = ctl s"
    "fst ` set (m_serviceItemsMap s') = fst ` set (m_serviceItemsMap s)" by simp_all
  from a e show "quiescent s'" by (simp add: core_no_scans)
qed

lemma removeServiceType_keys:
  assumes "removeServiceType rx st s = Some s'"
  shows "fst ` set (m_serviceItemsMap s') = fst ` set (m_serviceItemsMap s) - {st}"
proof (cases "qcontains (m_serviceItemsMap s) st")
  case False
  with assms show ?thesis by (auto simp: removeServiceType_def qcontains_def)
next
  case True
  with assms obtain s1 where 1: "clearItems rx st s = Some s1"
    and 2: "s' = s1\<lparr>m_serviceItemsMap := qremove st (m_serviceItemsMap s1),
                 m_serviceTypeMap := qremove st (m_serviceTypeMap s1)\<rparr>"
    by (auto simp: removeServiceType_def split: Option.bind_splits)
  from clearItems_inv(5)[OF 1] show ?thesis
    by (simp add: 2 keys_qremove)
qed

lemma removeServiceType_loop_keys:
  "forKeys (removeServiceType rx) ks s = Some s' \<Longrightarrow>
     fst ` set (m_serviceItemsMap s') = fst ` set (m_serviceItemsMap s) - set ks"
proof (induction ks arbitrary: s)
  case Nil
  then show ?case by simp
next
  case (Cons k ks)
  from Cons.prems(1) obtain s1 where 1: "removeServiceType rx k s = Some s1"
    and 2: "forKeys (removeServiceType rx) ks s1 = Some s'"
    by (auto split: option.splits)
  from Cons.IH[OF 2] removeServiceType_keys[OF 1] show ?case by auto
qed

lemma removeAllServiceTypes_empty:
  assumes "removeAllServiceTypes rx s = Some s'"
  shows "m_serviceItemsMap s' = []"
proof -
  from assms have "forKeys (removeServiceType rx) (qkeys (m_serviceItemsMap s)) s = Some s'"
    by (simp add: removeAllServiceTypes_def)
  from removeServiceType_loop_keys[OF this] have "fst ` set (m_serviceItemsMap s') = {}"
    by (simp add: qkeys_def)
  then show ?thesis by simp
qed

lemma updateAllServiceTypes_loop_effect:
  "updateAllServiceTypes_loop rx ks s = Some s' \<Longrightarrow> \<exists>l. s' = s\<lparr>m_serviceLists := l\<rparr>"
proof (induction ks arbitrary: s)
  case Nil
  then show ?case by (intro exI[of _ "m_serviceLists s"]) simp
next
  case (Cons k ks)
  from Cons.prems obtain s1 where 1: "updateServiceType rx k s = Some s1"
    and 2: "updateAllServiceTypes_loop rx ks s1 = Some s'"
    by (auto split: option.splits)
  from updateServiceType_effect[OF 1] obtain l1 where l1: "s1 = s\<lparr>m_serviceLists := l1\<rparr>" ..
  from Cons.IH[OF 2] obtain l where l: "s' = s1\<lparr>m_serviceLists := l\<rparr>" ..
  show ?case by (intro exI[of _ l]) (simp add: l l1)
qed

lemma updateAllServiceTypes_effect:
  "updateAllServiceTypes rx s = Some s' \<Longrightarrow> \<exists>l. s' = s\<lparr>m_serviceLists := l\<rparr>"
  unfolding updateAllServiceTypes_def by (rule updateAllServiceTypes_loop_effect)

lemma updateServices_add_inv:
  "updateServices_add qs old s = Some (old', s') \<Longrightarrow> core {} s \<Longrightarrow>
     (\<not> (m_running s \<and> m_networkReady s) \<longrightarrow> m_queryIdServiceMap s = []) \<Longrightarrow>
     core {} s' \<and> ctl s' = ctl s \<and> m_serviceLists s' = m_serviceLists s \<and>
     (\<not> (m_running s \<and> m_networkReady s) \<longrightarrow> m_queryIdServiceMap s' = [])"
proof (induction qs arbitrary: old s)
  case Nil
  then show ?case by simp
next
  case (Cons query qs)
  show ?case
  proof (cases "serviceType query = []")
    case True
    with Cons.prems(1) have "updateServices_add qs old s = Some (old', s')" by simp
    from Cons.IH[OF this Cons.prems(2,3)] show ?thesis .
  next
    case False
    let ?s1 = "addServiceType (serviceType query) (queryType query) s"
    note a = addServiceType_inv[OF Cons.prems(2), of "serviceType query" "queryType query"]
    from False Cons.prems(1) obtain s2 where
      2: "(if m_running ?s1 \<and> m_networkReady ?s1 then startQuery (serviceType query) ?s1
          else Some ?s1) = Some s2" and
      3: "updateServices_add qs (qremove (serviceType query) old) s2 = Some (old', s')"
      by (auto simp: Let_def split: option.splits)
    have b: "core {} s2 \<and> ctl s2 = ctl s \<and> m_serviceLists s2 = m_serviceLists s \<and>
      (\<not> (m_running s \<and> m_networkReady s) \<longrightarrow> m_queryIdServiceMap s2 = [])"
    proof (cases "m_running s \<and> m_networkReady s")
      case True
      with 2 a(6,7) have "startQuery (serviceType query) ?s1 = Some s2" by simp
      from startQuery_inv(1,2,4)[OF this a(1,4)] a(2,8) True show ?thesis by simp
    next
      case False
      with 2 a(6,7) have "s2 = ?s1" by auto
      with a(1,2,3,8) Cons.prems(3) False show ?thesis by simp
    qed
    then have c: "ctl s2 = ctl s" by simp
    have "\<not> (m_running s2 \<and> m_networkReady s2) \<longrightarrow> m_queryIdServiceMap s2 = []"
      using b ctl_D(1,2)[OF c] by simp
    from Cons.IH[OF 3 _ this] b ctl_D(1,2)[OF c] show ?thesis by simp
  qed
qed

lemma updateServices_remove_inv:
  assumes "updateServices_remove rx k s = Some s'" "core {} s"
    "\<not> (m_running s \<and> m_networkReady s) \<longrightarrow> m_queryIdServiceMap s = []"
  shows "core {} s' \<and> ctl s' = ctl s \<and>
    (\<not> (m_running s \<and> m_networkReady s) \<longrightarrow> m_queryIdServiceMap s' = [])"
proof -
  from assms(1) obtain s1 where
    1: "(if m_running s \<and> m_networkReady s then stopQuery rx k s else Some s) = Some s1" and
    2: "removeServiceType rx k s1 = Some s'"
    by (auto simp: updateServices_remove_def split: Option.bind_splits)
  have b: "core {} s1 \<and> ctl s1 = ctl s \<and> k \<notin> snd ` set (m_queryIdServiceMap s1) \<and>
    (\<not> (m_running s \<and> m_networkReady s) \<longrightarrow> m_queryIdServiceMap s1 = [])"
  proof (cases "m_running s \<and> m_networkReady s")
    case True
    with 1 have "stopQuery rx k s = Some s1" by simp
    from stopQuery_inv(1,2,4)[OF this assms(2)] True show ?thesis by simp
  next
    case False
    with 1 have "s1 = s" by auto
    with assms(2,3) False show ?thesis by simp
  qed
  then have c: "core {} s1" and n: "k \<notin> snd ` set (m_queryIdServiceMap s1)" by simp_all
  from removeServiceType_inv(1,2,3)[OF 2 c n] b show ?thesis by simp
qed

lemma updateServices_inv:
  assumes "updateServices rx s = Some s'" "core {} s"
    "\<not> (m_running s \<and> m_networkReady s) \<longrightarrow> m_queryIdServiceMap s = []"
  shows "core {} s'" "ctl s' = ctl s"
    "\<not> (m_running s \<and> m_networkReady s) \<longrightarrow> m_queryIdServiceMap s' = []"
proof -
  from assms(1) obtain old s1 s2 where
    1: "updateServices_add (concat (concat (m_serviceLists s))) (m_serviceItemsMap s) s = Some (old, s1)" and
    2: "forKeys (updateServices_remove rx) (qkeys old) s1 = Some s2" and
    3: "updateAllServiceTypes rx s2 = Some s'"
    by (auto simp: updateServices_def split: Option.bind_splits)
  note a = updateServices_add_inv[OF 1 assms(2,3)]
  let ?P = "\<lambda>t. core {} t \<and> ctl t = ctl s \<and>
    (\<not> (m_running s \<and> m_networkReady s) \<longrightarrow> m_queryIdServiceMap t = [])"
  have "?P s2"
  proof (rule forKeys_rule[OF 2, of ?P])
    show "?P s1" using a by simp
  next
    fix k t t'
    assume P: "?P t" and r: "updateServices_remove rx k t = Some t'"
    from P have c: "ctl t = ctl s" by simp
    have "\<not> (m_running t \<and> m_networkReady t) \<longrightarrow> m_queryIdServiceMap t = []"
      using P ctl_D(1,2)[OF c] by simp
    from updateServices_remove_inv[OF r _ this] P ctl_D(1,2)[OF c] show "?P t'" by simp
  qed
  moreover from updateAllServiceTypes_effect[OF 3] obtain l where "s' = s2\<lparr>m_serviceLists := l\<rparr>" ..
  ultimately show "core {} s'" "ctl s' = ctl s"
    "\<not> (m_running s \<and> m_networkReady s) \<longrightarrow> m_queryIdServiceMap s' = []"
    by simp_all
qed

subsection \<open>Lifecycle and reachable states\<close>

lemma quiescent_cong:
  "m_serviceItemsMap s' = m_serviceItemsMap s \<Longrightarrow> m_queryIdTypeMap s' = m_queryIdTypeMap s \<Longrightarrow>
   m_queryIdServiceMap s' = m_queryIdServiceMap s \<Longrightarrow> m_queryIdItemMap s' = m_queryIdItemMap s \<Longrightarrow>
   quiescent s' = quiescent s"
  by (simp add: quiescent_def)

lemma invariant_cong:
  assumes "m_serviceItemsMap s' = m_serviceItemsMap s" "m_queryIdTypeMap s' = m_queryIdTypeMap s"
    "m_queryIdServiceMap s' = m_queryIdServiceMap s" "m_queryIdItemMap s' = m_queryIdItemMap s"
    "m_jdns s' = m_jdns s" "heap s' = heap s" "nextAddr s' = nextAddr s"
    "m_running s' = m_running s" "m_networkReady s' = m_networkReady s"
    "m_lookupReady s' = m_lookupReady s"
  shows "invariant s' = invariant s"
proof -
  have "core {} s' = core {} s" by (rule core_cong) (simp_all add: assms)
  moreover have "quiescent s' = quiescent s" by (rule quiescent_cong) (simp_all add: assms)
  ultimately show ?thesis by (simp add: invariant_def flags_ok_def idle_ok_def assms)
qed

lemma refreshQuery_idle: "m_queryIdServiceMap s = [] \<Longrightarrow> refreshQuery rx k s = Some s"
  by (simp add: refreshQuery_def)

lemma unicastLookup_idle:
  "m_queryIdServiceMap s = [] \<Longrightarrow> forKeys (refreshQuery rx) ks s = Some s"
  by (induction ks) (simp_all add: refreshQuery_idle)

lemma updateNameServers_inv:
  assumes "updateNameServers rx s = Some s'" "core {} s"
  shows "core {} s'" "ctl s' = ctl s" "m_queryIdServiceMap s = [] \<longrightarrow> s' = s"
proof -
  from assms(1) have "s' = s \<or> unicastLookup rx s = Some s'"
    by (simp add: updateNameServers_def split: if_splits)
  then consider "s' = s" | "unicastLookup rx s = Some s'" by blast
  then have "core {} s' \<and> ctl s' = ctl s \<and> (m_queryIdServiceMap s = [] \<longrightarrow> s' = s)"
  proof cases
    case 1
    with assms(2) show ?thesis by simp
  next
    case 2
    from unicastLookup_inv[OF 2 assms(2)] 2 show ?thesis
      by (auto simp: unicastLookup_def unicastLookup_idle)
  qed
  then show "core {} s'" "ctl s' = ctl s" "m_queryIdServiceMap s = [] \<longrightarrow> s' = s"
    by simp_all
qed

lemma idle_quiescent: "idle_ok s \<Longrightarrow> \<not> m_running s \<or> m_jdns s = None \<Longrightarrow> quiescent s"
  by (auto simp: idle_ok_def)

lemma initializeMdns_inv:
  assumes i: "initializeMdns rx src ini s = Some (ok, s')" and c: "core {} s" and d: "idle_ok s"
    and n: "m_networkReady s" and l: "m_lookupReady s = (m_jdns s \<noteq> None)" and j: "inj src"
  shows "core {} s' \<and> idle_ok s' \<and> m_lookupReady s' = (m_jdns s' \<noteq> None) \<and>
    ok = (m_jdns s' \<noteq> None) \<and> m_networkReady s' \<and> m_running s' = m_running s"
proof -
  let ?s1 = "s\<lparr>m_jdns := Some \<lparr>idSource = src, started = [], cancelled = []\<rparr>, m_lookupReady := True\<rparr>"
  consider (present) "m_jdns s \<noteq> None" | (failed) "m_jdns s = None" "\<not> ini"
    | (created) "m_jdns s = None" "ini"
    by blast
  then show ?thesis
  proof cases
    case present
    with i have "ok" "s' = s" by (simp_all add: initializeMdns_def)
    with c d n l present show ?thesis by simp
  next
    case failed
    with i have ok: "\<not> ok" and s': "s' = s\<lparr>m_jdns := None\<rparr>" by (simp_all add: initializeMdns_def)
    have "core {} s' = core {} s" by (rule core_cong) (simp_all add: s' failed)
    moreover from idle_quiescent[OF d] failed have "quiescent s" by simp
    then have "quiescent s'" by (simp add: quiescent_def s')
    ultimately show ?thesis using c ok n l failed by (simp add: idle_ok_def s')
  next
    case created
    from idle_quiescent[OF d] created have q: "quiescent s" by simp
    have c1: "core {} ?s1"
      by (rule core_rebase[OF c q]) (use q j in \<open>simp_all add: quiescent_def bk_def\<close>)
    have q1: "quiescent ?s1" using q by (simp add: quiescent_def)
    from created i obtain s2 s3 where
      2: "(if m_lookupMode ?s1 = UnicastDNS then updateNameServers rx ?s1 else Some ?s1) = Some s2" and
      3: "(if m_running s2 then do {
              u \<leftarrow> updateServices rx s2;
              Some (if m_lookupMode u = UnicastDNS then u\<lparr>m_unicastLookupTimer := True\<rparr> else u)
            } else Some s2) = Some s3" and
      ok: "ok" and s': "s' = s3"
      by (auto simp: initializeMdns_def Let_def split: Option.bind_splits)
    have e2: "s2 = ?s1"
    proof (cases "m_lookupMode ?s1 = UnicastDNS")
      case True
      with 2 have "updateNameServers rx ?s1 = Some s2" by simp
      from updateNameServers_inv(3)[OF this c1] q1 show ?thesis by (simp add: quiescent_def)
    next
      case False
      with 2 show ?thesis by simp
    qed
    show ?thesis
    proof (cases "m_running s")
      case False
      with 3 e2 have "s3 = ?s1" by simp
      with c1 q1 ok s' n False show ?thesis by (simp add: idle_ok_def)
    next
      case True
      with 3 e2 obtain u where u: "updateServices rx ?s1 = Some u"
        and s3: "s3 = (if m_lookupMode u = UnicastDNS then u\<lparr>m_unicastLookupTimer := True\<rparr> else u)"
        by (auto split: Option.bind_splits)
      have "\<not> (m_running ?s1 \<and> m_networkReady ?s1) \<longrightarrow> m_queryIdServiceMap ?s1 = []"
        using True n by simp
      note v = updateServices_inv(1,2)[OF u c1 this]
      note w = ctl_D[OF v(2)]
      have "core {} s3 = core {} u" by (rule core_cong) (simp_all add: s3)
      with v(1) have "core {} s3" by simp
      moreover have "m_running s3" "m_jdns s3 \<noteq> None" "m_lookupReady s3" "m_networkReady s3"
        using w True n by (simp_all add: s3)
      ultimately show ?thesis using ok True by (simp add: s' idle_ok_def)
    qed
  qed
qed

lemma removeServiceType_ctl:
  assumes "removeServiceType rx st s = Some s'"
  shows "ctl s' = ctl s"
proof (cases "qcontains (m_serviceItemsMap s) st")
  case False
  with assms show ?thesis by (simp add: removeServiceType_def)
next
  case True
  with assms obtain s1 where 1: "clearItems rx st s = Some s1"
    and 2: "s' = s1\<lparr>m_serviceItemsMap := qremove st (m_serviceItemsMap s1),
                 m_serviceTypeMap := qremove st (m_serviceTypeMap s1)\<rparr>"
    by (auto simp: removeServiceType_def split: Option.bind_splits)
  from clearItems_inv(4)[OF 1] show ?thesis by (simp add: 2)
qed

lemma removeAllServiceTypes_ctl:
  assumes "removeAllServiceTypes rx s = Some s'"
  shows "ctl s' = ctl s"
proof -
  from assms have f: "forKeys (removeServiceType rx) (qkeys (m_serviceItemsMap s)) s = Some s'"
    by (simp add: removeAllServiceTypes_def)
  show ?thesis
    by (rule forKeys_rule[OF f, of "\<lambda>t. ctl t = ctl s"]) (simp_all add: removeServiceType_ctl)
qed

lemma deinitializeMdns_inv:
  assumes i: "deinitializeMdns rx s = Some s'" and c: "core {} s" and d: "idle_ok s"
    and l: "m_lookupReady s = (m_jdns s \<noteq> None)"
  shows "core {} s' \<and> quiescent s' \<and> m_jdns s' = None \<and> \<not> m_lookupReady s' \<and>
    m_running s' = m_running s \<and> m_networkReady s' = m_networkReady s"
proof -
  consider (absent) "m_jdns s = None" | (running) "m_jdns s \<noteq> None" "m_running s"
    | (idle) "m_jdns s \<noteq> None" "\<not> m_running s"
    by blast
  then show ?thesis
  proof cases
    case absent
    with i have "s' = s" by (simp add: deinitializeMdns_def)
    with idle_quiescent[OF d] absent c l show ?thesis by simp
  next
    case running
    let ?s0 = "if m_lookupMode s = UnicastDNS then s\<lparr>m_unicastLookupTimer := False\<rparr> else s"
    from running i obtain u where u: "removeAllServiceTypes rx ?s0 = Some u"
      and s': "s' = u\<lparr>m_queryIdItemMap := [], m_queryIdServiceMap := [], m_queryIdTypeMap := [],
                     m_jdns := None, m_lookupReady := False\<rparr>"
      by (auto simp: deinitializeMdns_def Let_def split: Option.bind_splits if_splits)
    from removeAllServiceTypes_empty[OF u] have e: "m_serviceItemsMap u = []" .
    note w = ctl_D[OF removeAllServiceTypes_ctl[OF u]]
    have "core {} s'" "quiescent s'"
      by (rule core_empty; simp add: s' e)+
    then show ?thesis using w(1,2) by (simp add: s')
  next
    case idle
    with i have s': "s' = s\<lparr>m_jdns := None, m_lookupReady := False\<rparr>"
      by (simp add: deinitializeMdns_def)
    from idle_quiescent[OF d] idle have q: "quiescent s" by simp
    have "core {} s'"
      by (rule core_rebase[OF c q]) (use q in \<open>simp_all add: quiescent_def bk_def s'\<close>)
    moreover have "quiescent s'" using q by (simp add: quiescent_def s')
    ultimately show ?thesis by (simp add: s')
  qed
qed

lemma invariantD:
  assumes "invariant s"
  shows "core {} s" "idle_ok s" "m_networkReady s = (m_jdns s \<noteq> None)"
    "m_lookupReady s = (m_jdns s \<noteq> None)"
  using assms by (simp_all add: invariant_def flags_ok_def)

lemma invariantI:
  assumes "core {} s" "(m_running s \<and> m_jdns s \<noteq> None) \<or> quiescent s"
    "m_networkReady s = (m_jdns s \<noteq> None)" "m_lookupReady s = (m_jdns s \<noteq> None)"
  shows "invariant s"
  using assms by (simp add: invariant_def flags_ok_def idle_ok_def)

lemma networkSessionOpened_inv:
  assumes "networkSessionOpened rx src ini s = Some s'" "invariant s" "inj src"
  shows "invariant s'"
proof -
  note v = invariantD[OF assms(2)]
  let ?s0 = "s\<lparr>m_networkReady := True\<rparr>"
  from assms(1) obtain ok s1 where 1: "initializeMdns rx src ini ?s0 = Some (ok, s1)"
    and s': "s' = (if \<not> ok then s1\<lparr>m_networkReady := False\<rparr> else s1)"
    by (auto simp: networkSessionOpened_def split: Option.bind_splits)
  have "core {} ?s0 = core {} s" by (rule core_cong) simp_all
  with v(1) have c0: "core {} ?s0" by simp
  have d0: "idle_ok ?s0" using v(2) by (simp add: idle_ok_def quiescent_def)
  from initializeMdns_inv[OF 1 c0 d0 _ _ assms(3)] v(4) have
    r: "core {} s1" "idle_ok s1" "m_lookupReady s1 = (m_jdns s1 \<noteq> None)"
       "ok = (m_jdns s1 \<noteq> None)" "m_networkReady s1"
    by simp_all
  show ?thesis
  proof (cases ok)
    case True
    with r s' show ?thesis by (simp add: invariant_def flags_ok_def)
  next
    case False
    then have e: "s' = s1\<lparr>m_networkReady := False\<rparr>" by (simp add: s')
    have "core {} s' = core {} s1" by (rule core_cong) (simp_all add: e)
    moreover have "idle_ok s'" using r(2) by (simp add: e idle_ok_def quiescent_def)
    ultimately show ?thesis using r False by (simp add: invariant_def flags_ok_def e)
  qed
qed

lemma networkSessionClosed_inv:
  assumes "networkSessionClosed rx s = Some s'" "invariant s"
  shows "invariant s'"
proof -
  note v = invariantD[OF assms(2)]
  from assms(1) obtain s1 where 1: "deinitializeMdns rx s = Some s1"
    and s': "s' = s1\<lparr>m_networkReady := False\<rparr>"
    by (auto simp: networkSessionClosed_def split: Option.bind_splits)
  from deinitializeMdns_inv[OF 1 v(1,2,4)] have
    r: "core {} s1" "quiescent s1" "m_jdns s1 = None" "\<not> m_lookupReady s1" by simp_all
  have "core {} s' = core {} s1" by (rule core_cong) (simp_all add: s')
  moreover have "quiescent s'" using r(2) by (simp add: s' quiescent_def)
  ultimately show ?thesis using r by (simp add: invariant_def flags_ok_def idle_ok_def s')
qed

lemma setRunning_inv:
  assumes "setRunning rx arg s = Some s'" "invariant s"
  shows "invariant s'"
proof (cases "m_running s = arg")
  case True
  with assms show ?thesis by (simp add: setRunning_def)
next
  case False
  note v = invariantD[OF assms(2)]
  let ?s1 = "s\<lparr>m_running := arg\<rparr>"
  have "core {} ?s1 = core {} s" by (rule core_cong) simp_all
  with v(1) have c1: "core {} ?s1" by simp
  show ?thesis
  proof (cases "m_networkReady s")
    case n: False
    with False assms(1) have s': "s' = ?s1" by (simp add: setRunning_def Let_def)
    from n v(3) have "m_jdns s = None" by simp
    with idle_quiescent[OF v(2)] have "quiescent s" by simp
    then have "quiescent ?s1" by (simp add: quiescent_def)
    with c1 v(3,4) show ?thesis by (simp add: s' invariant_def flags_ok_def idle_ok_def)
  next
    case n: True
    show ?thesis
    proof (cases arg)
      case True
      with False n assms(1) obtain s2 where 2: "startQueries ?s1 = Some s2"
        and s': "s' = (if m_lookupMode s2 = UnicastDNS then s2\<lparr>m_unicastLookupTimer := True\<rparr> else s2)"
        by (auto simp: setRunning_def Let_def split: Option.bind_splits)
      note a = startQueries_inv(1,2)[OF 2 c1]
      note w = ctl_D[OF a(2)]
      have "core {} s' = core {} s2" by (rule core_cong) (simp_all add: s')
      with a(1) have c': "core {} s'" by simp
      from v(3) n have "m_jdns s \<noteq> None" by simp
      with w(8) have j2: "m_jdns s2 \<noteq> None" by simp
      from w(1) True have r2: "m_running s2" by simp
      from w(2,3) n v(3,4) have f2: "m_networkReady s2" "m_lookupReady s2" by simp_all
      show ?thesis
        by (rule invariantI[OF c']) (use j2 r2 f2 in \<open>simp_all add: s'\<close>)
    next
      case f: False
      let ?s0 = "if m_lookupMode ?s1 = UnicastDNS then ?s1\<lparr>m_unicastLookupTimer := False\<rparr> else ?s1"
      from False n f assms(1) have 2: "stopQueries rx ?s0 = Some s'"
        by (auto simp: setRunning_def Let_def)
      have "core {} ?s0 = core {} ?s1" by (rule core_cong) simp_all
      with c1 have c0: "core {} ?s0" by simp
      note a = stopQueries_inv(1,2,3)[OF 2 c0]
      note w = ctl_D[OF a(2)]
      from a(1,3) show ?thesis
        using w v(3,4) by (intro invariantI) (simp_all split: if_splits)
    qed
  qed
qed

lemma setLookupMode_inv:
  assumes "setLookupMode rx arg src ini s = Some s'" "invariant s" "inj src"
  shows "invariant s'"
proof (cases "m_lookupMode s = arg")
  case True
  with assms show ?thesis by (simp add: setLookupMode_def)
next
  case False
  note v = invariantD[OF assms(2)]
  show ?thesis
  proof (cases "m_lookupReady s")
    case r: False
    with False assms(1) have s': "s' = s\<lparr>m_lookupMode := arg\<rparr>"
      by (simp add: setLookupMode_def Let_def)
    have "invariant s' = invariant s" by (rule invariant_cong) (simp_all add: s')
    with assms(2) show ?thesis by simp
  next
    case r: True
    with False assms(1) obtain s1 ok s3 where 1: "deinitializeMdns rx s = Some s1"
      and 3: "initializeMdns rx src ini (s1\<lparr>m_lookupMode := arg\<rparr>) = Some (ok, s3)"
      and s': "s' = (if \<not> ok then s3\<lparr>m_networkReady := False\<rparr> else s3)"
      by (auto simp: setLookupMode_def Let_def split: Option.bind_splits)
    from deinitializeMdns_inv[OF 1 v(1,2,4)] have
      d: "core {} s1" "quiescent s1" "m_jdns s1 = None" "\<not> m_lookupReady s1"
         "m_networkReady s1 = m_networkReady s" by simp_all
    let ?s2 = "s1\<lparr>m_lookupMode := arg\<rparr>"
    have "core {} ?s2 = core {} s1" by (rule core_cong) simp_all
    with d(1) have c2: "core {} ?s2" by simp
    have d2: "idle_ok ?s2" using d(2) by (simp add: idle_ok_def quiescent_def)
    have n2: "m_networkReady ?s2" using d(5) v(3,4) r by simp
    have l2: "m_lookupReady ?s2 = (m_jdns ?s2 \<noteq> None)" using d(3,4) by simp
    from initializeMdns_inv[OF 3 c2 d2 n2 l2 assms(3)] have
      q: "core {} s3" "idle_ok s3" "m_lookupReady s3 = (m_jdns s3 \<noteq> None)"
         "ok = (m_jdns s3 \<noteq> None)" "m_networkReady s3"
      by simp_all
    show ?thesis
    proof (cases ok)
      case True
      with q s' show ?thesis by (simp add: invariant_def flags_ok_def)
    next
      case False
      then have e: "s' = s3\<lparr>m_networkReady := False\<rparr>" by (simp add: s')
      have "core {} s' = core {} s3" by (rule core_cong) (simp_all add: e)
      moreover have "idle_ok s'" using q(2) by (simp add: e idle_ok_def quiescent_def)
      ultimately show ?thesis using q False by (simp add: invariant_def flags_ok_def e)
    qed
  qed
qed

lemma lists_invariant: "invariant (s\<lparr>m_serviceLists := l\<rparr>) = invariant s"
  by (rule invariant_cong) simp_all

lemma live_or_idle:
  assumes "invariant s" "core {} s'" "ctl s' = ctl s"
    "\<not> (m_running s \<and> m_networkReady s) \<longrightarrow> m_queryIdServiceMap s' = []"
  shows "invariant s'"
proof -
  note v = invariantD[OF assms(1)]
  note w = ctl_D[OF assms(3)]
  show ?thesis
  proof (rule invariantI[OF assms(2)])
    show "m_running s' \<and> m_jdns s' \<noteq> None \<or> quiescent s'"
      using assms(4) v(3) w core_no_scans[OF assms(2)] by auto
  qed (use v w in simp_all)
qed

text \<open>
  Every event keeps the invariant, which therefore holds in every reachable state.
\<close>

lemma step_invariant:
  assumes "step rx e s = Some s'" "enabled e s" "invariant s"
  shows "invariant s'"
proof -
  note v = invariantD[OF assms(3)]
  have idle: "\<not> (m_running s \<and> m_networkReady s) \<longrightarrow> m_queryIdServiceMap s = []"
    using idle_quiescent[OF v(2)] v(3) by (auto simp: quiescent_def)
  show ?thesis
  proof (cases e)
    case ComponentComplete
    with assms(1) have s': "s' = s\<lparr>m_componentCompleted := True\<rparr>" by simp
    have "invariant s' = invariant s" by (rule invariant_cong) (simp_all add: s')
    with assms(3) show ?thesis by simp
  next
    case (NetworkSessionOpened src ini)
    with assms show ?thesis by (auto intro: networkSessionOpened_inv)
  next
    case NetworkSessionClosed
    with assms show ?thesis by (auto intro: networkSessionClosed_inv)
  next
    case (SetRunning arg)
    with assms show ?thesis by (auto intro: setRunning_inv)
  next
    case (SetLookupMode arg src ini)
    with assms show ?thesis by (auto intro: setLookupMode_inv)
  next
    case (SetFilter same arg)
    show ?thesis
    proof (cases same)
      case True
      with SetFilter assms show ?thesis by (simp add: setFilter_def)
    next
      case False
      with SetFilter assms(1) have "updateAllServiceTypes rx (s\<lparr>m_filter := arg\<rparr>) = Some s'"
        by (simp add: setFilter_def)
      from updateAllServiceTypes_effect[OF this] obtain l where
        s': "s' = s\<lparr>m_filter := arg, m_serviceLists := l\<rparr>" by auto
      have "invariant s' = invariant s" by (rule invariant_cong) (simp_all add: s')
      with assms(3) show ?thesis by simp
    qed
  next
    case UpdateFilter
    with assms(1) have "updateAllServiceTypes rx s = Some s'" by (simp add: updateFilter_def)
    from updateAllServiceTypes_effect[OF this] obtain l where "s' = s\<lparr>m_serviceLists := l\<rparr>" ..
    with assms(3) show ?thesis by (simp add: lists_invariant)
  next
    case (EditServiceLists l)
    with assms(1,3) show ?thesis by (auto simp: lists_invariant)
  next
    case UpdateServices
    with assms(1) have u: "updateServices rx s = Some s'" by simp
    from updateServices_inv[OF u v(1) idle] show ?thesis
      by (intro live_or_idle[OF assms(3)])
  next
    case UpdateNameServers
    with assms(1) have u: "updateNameServers rx s = Some s'" by simp
    note a = updateNameServers_inv[OF u v(1)]
    show ?thesis
    proof (rule live_or_idle[OF assms(3) a(1,2)])
      show "\<not> (m_running s \<and> m_networkReady s) \<longrightarrow> m_queryIdServiceMap s' = []"
        using idle a(3) by auto
    qed
  next
    case (SetUnicastErrorThreshold arg)
    with assms(1) have s': "s' = setUnicastErrorThreshold arg s" by simp
    have "invariant s' = invariant s"
      by (rule invariant_cong) (simp_all add: s' setUnicastErrorThreshold_def)
    with assms(3) show ?thesis by simp
  next
    case UnicastLookupTimeout
    with assms(1) have u: "unicastLookup rx s = Some s'" by simp
    note a = unicastLookup_inv[OF u v(1)]
    show ?thesis
    proof (rule live_or_idle[OF assms(3) a(1,2)])
      show "\<not> (m_running s \<and> m_networkReady s) \<longrightarrow> m_queryIdServiceMap s' = []"
        using idle u by (auto simp: unicastLookup_def unicastLookup_idle)
    qed
  next
    case (ResultsReady qid rs)
    with assms(1) have u: "resultsReady rx qid rs s = Some s'" by simp
    note a = resultsReady_inv[OF u v(1)]
    show ?thesis
    proof (rule live_or_idle[OF assms(3) a(1,2)])
      show "\<not> (m_running s \<and> m_networkReady s) \<longrightarrow> m_queryIdServiceMap s' = []"
        using idle a(3) by simp
    qed
  next
    case (BackendError qid)
    with assms(1,3) show ?thesis by simp
  qed
qed

lemma invariant_initial: "invariant initial"
proof -
  have "core {} initial" "quiescent initial"
    by (rule core_empty; simp add: initial_def)+
  then show ?thesis by (simp add: invariant_def flags_ok_def idle_ok_def initial_def)
qed

lemma reachable_invariant: "reachable rx s \<Longrightarrow> invariant s"
  by (induction rule: reachable.induct) (auto intro: invariant_initial step_invariant)

lemma reachable_run:
  "reachable rx s \<Longrightarrow> run rx es s = Some s' \<Longrightarrow> reachable rx s'"
proof (induction es arbitrary: s)
  case Nil
  then show ?case by simp
next
  case (Cons e es)
  from Cons.prems(2) obtain s1 where "enabled e s" "step rx e s = Some s1" "run rx es s1 = Some s'"
    by (auto split: if_splits option.splits)
  with Cons.IH[of s1] Cons.prems(1) show ?case by (auto intro: reachable_step)
qed

subsection \<open>Stopping a scan: termination, backend log and user queries\<close>

text \<open>
  With a backend, clearing and stopping do not fail.
\<close>

lemma clearItems_loop_total:
  "m_jdns s \<noteq> None \<Longrightarrow> \<exists>s'. clearItems_loop xs s = Some s'"
proof (induction xs arbitrary: s)
  case Nil
  then show ?case by simp
next
  case (Cons a xs)
  from stopItemQueries_total[of s a] Cons.prems obtain s1 where 1: "stopItemQueries a s = Some s1"
    by auto
  from stopItemQueries_effect[OF 1] obtain ids where "set ids = requestsOf {a} (m_queryIdItemMap s) \<and> s1 = stopped {a} ids s" ..
  with Cons.prems have "m_jdns (deleteLater a s1) \<noteq> None" by simp
  from Cons.IH[OF this] 1 show ?case by simp
qed

lemma clearItems_total:
  assumes "m_jdns s \<noteq> None"
  shows "\<exists>s'. clearItems rx st s = Some s'"
proof (cases "qcontains (m_serviceItemsMap s) st")
  case False
  then show ?thesis by (simp add: clearItems_def)
next
  case True
  from clearItems_loop_total[OF assms] obtain s1 where
    1: "clearItems_loop (rev (qvalue [] (m_serviceItemsMap s) st)) s = Some s1" by blast
  let ?s2 = "s1\<lparr>m_serviceItemsMap := qinsert st [] (m_serviceItemsMap s1)\<rparr>"
  have "instances ?s2 st = []" by (simp add: instances_def)
  then have "set (instances ?s2 st) \<subseteq> dom (heap ?s2)" by simp
  from updateServiceType_total[OF this, of rx] obtain s' where "updateServiceType rx st ?s2 = Some s'" ..
  with 1 True show ?thesis by (simp add: clearItems_def)
qed

lemma stopQuery_total:
  assumes "m_jdns s \<noteq> None"
  shows "\<exists>s'. stopQuery rx st s = Some s'"
proof (cases "findQuery st (m_queryIdServiceMap s)")
  case None
  then show ?thesis by (simp add: stopQuery_eq)
next
  case (Some i)
  from assms have "m_jdns (scanStopped i s) \<noteq> None" by simp
  from clearItems_total[OF this, of rx st] Some assms show ?thesis by (simp add: stopQuery_eq)
qed

lemma stopQuery_loop_total:
  "core {} s \<Longrightarrow> m_jdns s \<noteq> None \<Longrightarrow> \<exists>s'. forKeys (stopQuery rx) ks s = Some s'"
proof (induction ks arbitrary: s)
  case Nil
  then show ?case by simp
next
  case (Cons k ks)
  from stopQuery_total[OF Cons.prems(2), of rx k] obtain s1 where 1: "stopQuery rx k s = Some s1" ..
  note a = stopQuery_inv(1,2)[OF 1 Cons.prems(1)]
  from ctl_D(8)[OF a(2)] Cons.prems(2) have "m_jdns s1 \<noteq> None" by simp
  from Cons.IH[OF a(1) this] 1 show ?case by simp
qed

lemma removeServiceType_total:
  assumes "m_jdns s \<noteq> None"
  shows "\<exists>s'. removeServiceType rx st s = Some s'"
  using clearItems_total[OF assms, of rx st] by (auto simp: removeServiceType_def)

lemma removeServiceType_loop_total:
  "m_jdns s \<noteq> None \<Longrightarrow> \<exists>s'. forKeys (removeServiceType rx) ks s = Some s'"
proof (induction ks arbitrary: s)
  case Nil
  then show ?case by simp
next
  case (Cons k ks)
  from removeServiceType_total[OF Cons.prems, of rx k] obtain s1 where
    1: "removeServiceType rx k s = Some s1" ..
  from ctl_D(8)[OF removeServiceType_ctl[OF 1]] Cons.prems have "m_jdns s1 \<noteq> None" by simp
  from Cons.IH[OF this] 1 show ?case by simp
qed

lemma list_all2_map_eq: "list_all2 (\<lambda>x y. y = f x) xs ys \<Longrightarrow> ys = map f xs"
  by (induction xs ys rule: list_all2_induct) simp_all

lemma clearItems_lists:
  assumes "clearItems rx st s = Some s'" "qcontains (m_serviceItemsMap s) st"
  shows "allQueries s' = map (\<lambda>q. if serviceType q = st then q\<lparr>items := []\<rparr> else q) (allQueries s)"
proof -
  from assms obtain s1 where s1: "clearItems_loop (rev (instances s st)) s = Some s1"
    and u: "updateServiceType rx st (s1\<lparr>m_serviceItemsMap := qinsert st [] (m_serviceItemsMap s1)\<rparr>) = Some s'"
    by (auto simp: clearItems_def instances_def split: Option.bind_splits)
  let ?s2 = "s1\<lparr>m_serviceItemsMap := qinsert st [] (m_serviceItemsMap s1)\<rparr>"
  from clearItems_loop_effect[OF s1] obtain ids where
    "set ids = requestsOf (set (rev (instances s st))) (m_queryIdItemMap s) \<and>
     s1 = (stopped (set (rev (instances s st))) ids s)\<lparr>heap := heap s |` (- set (rev (instances s st)))\<rparr>" ..
  then have l: "allQueries ?s2 = allQueries s" by (simp add: allQueries_def)
  have i: "instances ?s2 st = []" by (simp add: instances_def)
  have r: "refreshed rx ?s2 st q = (if serviceType q = st then q\<lparr>items := []\<rparr> else q)" for q
    using i by (simp add: refreshed_def projection_def)
  have "qcontains (m_serviceItemsMap ?s2) st" by (simp add: qcontains_qinsert)
  from updateServiceType_refreshed[OF u this] have
    "list_all2 (\<lambda>q q'. q' = (if serviceType q = st then q\<lparr>items := []\<rparr> else q)) (allQueries s) (allQueries s')"
    unfolding l r .
  then show ?thesis by (rule list_all2_map_eq)
qed

lemma cancelledQueries_cancelAll:
  "J \<noteq> None \<Longrightarrow> cancelledQueries (s\<lparr>m_jdns := cancelAll ids J\<rparr>) = cancelledQueries (s\<lparr>m_jdns := J\<rparr>) @ ids"
  by (cases J) (simp_all add: cancelledQueries_def cancelAll_def)

lemma clearItems_log:
  assumes "clearItems rx st s = Some s'" "m_jdns s \<noteq> None"
  shows "\<exists>ids. cancelledQueries s' = cancelledQueries s @ ids"
proof -
  from clearItems_effect[OF assms(1)]
  consider "s' = s" | ids where "m_jdns s' = cancelAll ids (m_jdns s)"
    by auto
  then show ?thesis
  proof cases
    case 1
    then show ?thesis by simp
  next
    case 2
    with assms(2) have "cancelledQueries s' = cancelledQueries s @ ids"
      by (cases "m_jdns s") (simp_all add: cancelledQueries_def cancelAll_def)
    then show ?thesis ..
  qed
qed

text \<open>
  What one \<^verbatim>\<open>stopQuery\<close> does to the scans, to the log of the backend and to the user's
  queries.
\<close>

lemma stopQuery_step:
  assumes "stopQuery rx k s = Some s'" "core {} s"
  shows "\<forall>p \<in> set (m_queryIdServiceMap s).
           p \<in> set (m_queryIdServiceMap s') \<or> fst p \<in> set (cancelledQueries s')"
    and "set (cancelledQueries s) \<subseteq> set (cancelledQueries s')"
    and "\<forall>q \<in> set (allQueries s'). items q = [] \<or>
           (q \<in> set (allQueries s) \<and>
            (serviceType q \<in> snd ` set (m_queryIdServiceMap s) \<longrightarrow>
             serviceType q \<in> snd ` set (m_queryIdServiceMap s')))"
proof -
  have "(\<forall>p \<in> set (m_queryIdServiceMap s).
           p \<in> set (m_queryIdServiceMap s') \<or> fst p \<in> set (cancelledQueries s')) \<and>
    set (cancelledQueries s) \<subseteq> set (cancelledQueries s') \<and>
    (\<forall>q \<in> set (allQueries s'). items q = [] \<or>
           (q \<in> set (allQueries s) \<and>
            (serviceType q \<in> snd ` set (m_queryIdServiceMap s) \<longrightarrow>
             serviceType q \<in> snd ` set (m_queryIdServiceMap s'))))"
  proof (cases "findQuery k (m_queryIdServiceMap s)")
    case None
    with assms(1) have "s' = s" by (simp add: stopQuery_eq)
    then show ?thesis by simp
  next
    case (Some i)
    with assms(1) have j: "m_jdns s \<noteq> None" and c: "clearItems rx k (scanStopped i s) = Some s'"
      by (auto simp: stopQuery_eq split: if_splits)
    from findQuery_Some[OF Some] have m: "(i, k) \<in> set (m_queryIdServiceMap s)" .
    from assms(2) have kd: "distinct (map fst (m_queryIdServiceMap s))" and sk: "scans_known s"
      by (simp_all add: core_def registry_ok_def keys_distinct_def)
    from sk m have q: "qcontains (m_serviceItemsMap (scanStopped i s)) k"
      unfolding scans_known_def by fastforce
    from j have j0: "m_jdns (scanStopped i s) \<noteq> None" by simp
    from clearItems_log[OF c j0] obtain ids where
      "cancelledQueries s' = cancelledQueries (scanStopped i s) @ ids" ..
    moreover from j have "cancelledQueries (scanStopped i s) = cancelledQueries s @ [i]"
      by (cases "m_jdns s") (simp_all add: cancelledQueries_def cancelAll_def)
    ultimately have lg: "cancelledQueries s' = cancelledQueries s @ [i] @ ids" by simp
    from clearItems_inv(6)[OF c] have sm: "m_queryIdServiceMap s' = qremove i (m_queryIdServiceMap s)"
      by simp
    have 1: "\<forall>p \<in> set (m_queryIdServiceMap s).
           p \<in> set (m_queryIdServiceMap s') \<or> fst p \<in> set (cancelledQueries s')"
      by (auto simp: sm lg set_qremove)
    have 2: "set (cancelledQueries s) \<subseteq> set (cancelledQueries s')" by (auto simp: lg)
    have al: "allQueries s' = map (\<lambda>q. if serviceType q = k then q\<lparr>items := []\<rparr> else q) (allQueries s)"
      using clearItems_lists[OF c q] by (simp add: allQueries_def)
    have 3: "items q = [] \<or>
           (q \<in> set (allQueries s) \<and>
            (serviceType q \<in> snd ` set (m_queryIdServiceMap s) \<longrightarrow>
             serviceType q \<in> snd ` set (m_queryIdServiceMap s')))"
      if "q \<in> set (allQueries s')" for q
    proof -
      from that obtain q0 where q0: "q0 \<in> set (allQueries s)"
        and e: "q = (if serviceType q0 = k then q0\<lparr>items := []\<rparr> else q0)"
        unfolding al by auto
      show ?thesis
      proof (cases "serviceType q0 = k")
        case True
        with e show ?thesis by simp
      next
        case False
        with e have qq: "q = q0" by simp
        have "serviceType q \<in> snd ` set (m_queryIdServiceMap s')"
          if "serviceType q \<in> snd ` set (m_queryIdServiceMap s)"
        proof -
          from that obtain i' where i': "(i', serviceType q) \<in> set (m_queryIdServiceMap s)" by force
          have "i' \<noteq> i"
          proof
            assume "i' = i"
            with i' m kd have "serviceType q = k" by (metis distinct_keys_unique)
            with False qq show False by simp
          qed
          with i' have "(i', serviceType q) \<in> set (m_queryIdServiceMap s')"
            by (simp add: sm set_qremove)
          then show ?thesis by force
        qed
        with q0 qq show ?thesis by simp
      qed
    qed
    from 1 2 3 show ?thesis by blast
  qed
  then show "\<forall>p \<in> set (m_queryIdServiceMap s).
           p \<in> set (m_queryIdServiceMap s') \<or> fst p \<in> set (cancelledQueries s')"
    and "set (cancelledQueries s) \<subseteq> set (cancelledQueries s')"
    and "\<forall>q \<in> set (allQueries s'). items q = [] \<or>
           (q \<in> set (allQueries s) \<and>
            (serviceType q \<in> snd ` set (m_queryIdServiceMap s) \<longrightarrow>
             serviceType q \<in> snd ` set (m_queryIdServiceMap s')))"
    by simp_all
qed

subsection \<open>Scans, PTR answers and shutdown in reachable states\<close>

lemma reachable_scanning: "reachable literalContains scanning"
  by (rule reachable_run[OF reachable_initial run_discovering])

lemma reachable_resolving: "reachable literalContains resolving"
  by (rule reachable_run[OF reachable_scanning run_resolving])

lemma singleton_length:
  assumes "distinct xs" "\<And>x y. x \<in> set xs \<Longrightarrow> y \<in> set xs \<Longrightarrow> x = y"
  shows "length xs \<le> 1"
proof (cases xs)
  case Nil
  then show ?thesis by simp
next
  case (Cons a ys)
  show ?thesis
  proof (cases ys)
    case Nil
    with Cons show ?thesis by simp
  next
    case (Cons b zs)
    with \<open>xs = a # ys\<close> assms(1) have "a \<noteq> b" by auto
    moreover from Cons \<open>xs = a # ys\<close> have "a = b" by (intro assms(2)) simp_all
    ultimately show ?thesis by simp
  qed
qed

lemma one_scan:
  assumes "core X s"
  shows "length (filter (\<lambda>p. snd p = st) (m_queryIdServiceMap s)) \<le> 1"
proof (rule singleton_length)
  from assms have kd: "distinct (map fst (m_queryIdServiceMap s))"
    by (simp add: core_def registry_ok_def keys_distinct_def)
  then have "distinct (m_queryIdServiceMap s)" by (simp add: distinct_map)
  then show "distinct (filter (\<lambda>p. snd p = st) (m_queryIdServiceMap s))" by simp
next
  fix x y
  assume x: "x \<in> set (filter (\<lambda>p. snd p = st) (m_queryIdServiceMap s))"
    and y: "y \<in> set (filter (\<lambda>p. snd p = st) (m_queryIdServiceMap s))"
  from assms have "scan_unique s" by (simp add: core_def registry_ok_def)
  with x y have "fst x = fst y" unfolding scan_unique_def by simp
  with x y show "x = y" by (simp add: prod_eq_iff)
qed

text \<open>
  Claim C8: in every reachable state the registry holds at most one scan for a service
  type \<open>st\<close>; \<open>startQuery\<close> returns with the state unchanged when a query for \<open>st\<close> is
  registered in \<open>m_queryIdServiceMap\<close>, \<open>stopQuery\<close> when none is; and a second
  \<open>startQuery\<close> or \<open>stopQuery\<close> after a first changes nothing.
\<close>

theorem scan_idempotent:
  assumes "reachable rx s"
  shows "length (filter (\<lambda>p. snd p = st) (m_queryIdServiceMap s)) \<le> 1 \<and>
    (st \<in> snd ` set (m_queryIdServiceMap s) \<longrightarrow> startQuery st s = Some s) \<and>
    (st \<notin> snd ` set (m_queryIdServiceMap s) \<longrightarrow> stopQuery rx st s = Some s) \<and>
    (\<forall>s1. startQuery st s = Some s1 \<longrightarrow> startQuery st s1 = Some s1) \<and>
    (\<forall>s1. stopQuery rx st s = Some s1 \<longrightarrow> stopQuery rx st s1 = Some s1)"
proof -
  from reachable_invariant[OF assms] have c: "core {} s" by (simp add: invariant_def)
  then have i: "ids_issued s" by (simp add: core_def registry_ok_def)
  have 1: "length (filter (\<lambda>p. snd p = st) (m_queryIdServiceMap s)) \<le> 1"
    by (rule one_scan[OF c])
  have 2: "st \<in> snd ` set (m_queryIdServiceMap s) \<longrightarrow> startQuery st s = Some s"
    by (simp add: startQuery_eq)
  have n: "stopQuery rx st t = Some t" if "st \<notin> snd ` set (m_queryIdServiceMap t)" for t
  proof -
    from that have "findQuery st (m_queryIdServiceMap t) = None" by (simp add: findQuery_None)
    then show ?thesis by (simp add: stopQuery_eq)
  qed
  have 4: "startQuery st s1 = Some s1" if "startQuery st s = Some s1" for s1
  proof (cases "st \<in> snd ` set (m_queryIdServiceMap s)")
    case True
    with that show ?thesis by (simp add: startQuery_eq)
  next
    case False
    with that have j: "m_jdns s \<noteq> None" and e: "s1 = scanStarted st s"
      by (auto simp: startQuery_eq split: if_splits)
    from scanStarted_values[OF i j, of st] show ?thesis by (simp add: e startQuery_eq)
  qed
  have 5: "stopQuery rx st s1 = Some s1" if "stopQuery rx st s = Some s1" for s1
    by (rule n) (rule stopQuery_inv(4)[OF that c])
  from 1 2 n 4 5 show ?thesis by blast
qed

text \<open>
  Claim C8 at the state \<open>scanning\<close>, whose registry holds the scan 0 for \<open>_h._tcp\<close>.
\<close>

theorem scan_idempotent_witness:
  "reachable literalContains scanning \<and>
   m_queryIdServiceMap scanning = [(0, ''_h._tcp'')] \<and>
   startQuery ''_h._tcp'' scanning = Some scanning"
  using scan_idempotent[OF reachable_scanning, of "''_h._tcp''"] reachable_scanning
  by (simp add: scanning_def)

lemma addItem_total:
  assumes "heap_ok s" "keys_distinct s" "qcontains (m_serviceItemsMap s) ty"
  shows "\<exists>a s'. addItem nm ty s = Some (Some a, s')"
proof -
  from instances_in[OF assms(2,3)] have "(ty, instances s ty) \<in> set (m_serviceItemsMap s)" .
  from heap_ok_list(2)[OF assms(1) this] have "set (instances s ty) \<subseteq> dom (heap s)" by auto
  from findItem_total[OF this, of nm] obtain r where
    "findItem (heap s) nm (instances s ty) = Some r" ..
  with assms(3) show ?thesis
    by (cases r) (simp_all add: addItem_def instances_def Let_def)
qed

text \<open>
  Claim C9: when a PTR answer is delivered in a reachable state, that is, the record
  type that \<open>m_queryIdTypeMap\<close> binds to the query id is PTR, then at every record of
  the answer (after the records \<open>handled\<close> so far) the service type that
  \<open>m_queryIdServiceMap\<close> binds to the query id is a key of the instance table, and
  \<open>addItem\<close> returns an item, not null.
\<close>

theorem ptr_addItem_safe:
  assumes "reachable rx s" "qvalue NoType (m_queryIdTypeMap s) qid = Ptr"
    and "forKeys (resultsReady_record rx qid Ptr) handled s = Some t"
  shows "qcontains (m_serviceItemsMap t) (qvalue [] (m_queryIdServiceMap t) qid) \<and>
    (\<exists>a t1. addItem nm (qvalue [] (m_queryIdServiceMap t) qid) t = Some (Some a, t1))"
proof -
  from reachable_invariant[OF assms(1)] have c: "core {} s" by (simp add: invariant_def)
  from ptr_scan[OF c assms(2)] have q: "qcontains (m_queryIdServiceMap s) qid" .
  let ?P = "\<lambda>u. core {} u \<and> m_queryIdServiceMap u = m_queryIdServiceMap s"
  have "?P t"
  proof (rule forKeys_rule[OF assms(3), of ?P])
    show "?P s" using c by simp
  next
    fix k u u'
    assume P: "?P u" and r: "resultsReady_record rx qid Ptr k u = Some u'"
    from P q have "Ptr = Ptr \<longrightarrow> qcontains (m_queryIdServiceMap u) qid" by simp
    from resultsReady_record_inv[OF r _ this] P show "?P u'" by simp
  qed
  then have ct: "core {} t" and qt: "qcontains (m_queryIdServiceMap t) qid" using q by simp_all
  from scan_bound(2)[OF ct qt] have
    k: "qcontains (m_serviceItemsMap t) (qvalue [] (m_queryIdServiceMap t) qid)" .
  from ct have "heap_ok t" "keys_distinct t" by (simp_all add: core_def registry_ok_def)
  from addItem_total[OF this k] k show ?thesis by simp
qed

text \<open>
  Claim C9 at the state \<open>scanning\<close>: after the PTR answer for \<open>x\<close>, which leaves the state
  \<open>resolving\<close>, the next PTR answer of the same delivery, for \<open>y\<close>, gets the new item 1.
\<close>

theorem ptr_addItem_safe_witness:
  "reachable literalContains scanning \<and> qvalue NoType (m_queryIdTypeMap scanning) 0 = Ptr \<and>
   forKeys (resultsReady_record literalContains 0 Ptr) [answer ''x._h._tcp'' 120] scanning = Some resolving \<and>
   qcontains (m_serviceItemsMap resolving) ''_h._tcp'' \<and>
   map_option fst (addItem ''y'' ''_h._tcp'' resolving) = Some (Some 1)"
  using ptr_addItem_safe[OF reachable_scanning, of 0 "[answer ''x._h._tcp'' 120]" resolving "''y''"]
    reachable_scanning
  by (simp add: eval_defs insert_commute)

lemma stopQueries_effect:
  assumes c: "core {} s" and j: "m_jdns s \<noteq> None"
  shows "\<exists>s'. stopQueries rx s = Some s' \<and> core {} s' \<and> ctl s' = ctl s \<and> quiescent s' \<and>
    (\<forall>i \<in> fst ` set (m_queryIdServiceMap s). i \<in> set (cancelledQueries s')) \<and>
    (\<forall>q \<in> set (allQueries s'). serviceType q \<in> snd ` set (m_queryIdServiceMap s) \<longrightarrow> items q = [])"
proof -
  from stopQuery_loop_total[OF c j, of rx "qkeys (m_serviceItemsMap s)"] obtain s' where
    f: "forKeys (stopQuery rx) (qkeys (m_serviceItemsMap s)) s = Some s'" ..
  then have s': "stopQueries rx s = Some s'" by (simp add: stopQueries_def)
  note a = stopQueries_inv[OF s' c]
  let ?A = "\<lambda>t. \<forall>p \<in> set (m_queryIdServiceMap s).
    p \<in> set (m_queryIdServiceMap t) \<or> fst p \<in> set (cancelledQueries t)"
  let ?B = "\<lambda>t. \<forall>q \<in> set (allQueries t). serviceType q \<in> snd ` set (m_queryIdServiceMap s) \<longrightarrow>
    serviceType q \<in> snd ` set (m_queryIdServiceMap t) \<or> items q = []"
  let ?P = "\<lambda>t. core {} t \<and> ?A t \<and> ?B t"
  have "?P s'"
  proof (rule forKeys_rule[OF f, of ?P])
    show "?P s" using c by simp
  next
    fix k t t'
    assume P: "?P t" and r: "stopQuery rx k t = Some t'"
    then have ct: "core {} t" by simp
    note b = stopQuery_step[OF r ct]
    have "?A t'"
    proof
      fix p assume "p \<in> set (m_queryIdServiceMap s)"
      with P have "p \<in> set (m_queryIdServiceMap t) \<or> fst p \<in> set (cancelledQueries t)" by blast
      with b(1,2) show "p \<in> set (m_queryIdServiceMap t') \<or> fst p \<in> set (cancelledQueries t')"
        by blast
    qed
    moreover have "?B t'"
    proof (intro ballI impI)
      fix q assume q: "q \<in> set (allQueries t')"
        and ty: "serviceType q \<in> snd ` set (m_queryIdServiceMap s)"
      from b(3) q consider "items q = []"
        | "q \<in> set (allQueries t)" "serviceType q \<in> snd ` set (m_queryIdServiceMap t) \<longrightarrow>
             serviceType q \<in> snd ` set (m_queryIdServiceMap t')"
        by blast
      then show "serviceType q \<in> snd ` set (m_queryIdServiceMap t') \<or> items q = []"
      proof cases
        case 1
        then show ?thesis by simp
      next
        case 2
        from P 2(1) ty have "serviceType q \<in> snd ` set (m_queryIdServiceMap t) \<or> items q = []"
          by blast
        with 2(2) show ?thesis by blast
      qed
    qed
    ultimately show "?P t'" using stopQuery_inv(1)[OF r ct] by simp
  qed
  moreover from a(3) have e: "m_queryIdServiceMap s' = []" by (simp add: quiescent_def)
  ultimately have "\<forall>i \<in> fst ` set (m_queryIdServiceMap s). i \<in> set (cancelledQueries s')"
    and "\<forall>q \<in> set (allQueries s'). serviceType q \<in> snd ` set (m_queryIdServiceMap s) \<longrightarrow> items q = []"
    by auto
  with s' a show ?thesis by blast
qed

text \<open>
  Claim C10: in a reachable state where the engine is running and the network is ready,
  \<open>setRunning(false)\<close> returns; after it no scan is registered, the backend has been
  asked to cancel every scan that was, every instance table is empty, and every user
  query for a service type that had a scan has an empty list of items.
\<close>

theorem stop_running_clears:
  assumes "reachable rx s" "m_running s" "m_networkReady s"
  shows "\<exists>s'. setRunning rx False s = Some s' \<and> \<not> m_running s' \<and>
    m_queryIdServiceMap s' = [] \<and>
    (\<forall>i \<in> fst ` set (m_queryIdServiceMap s). i \<in> set (cancelledQueries s')) \<and>
    (\<forall>e \<in> set (m_serviceItemsMap s'). snd e = []) \<and>
    (\<forall>q \<in> set (allQueries s'). serviceType q \<in> snd ` set (m_queryIdServiceMap s) \<longrightarrow> items q = [])"
proof -
  note v = invariantD[OF reachable_invariant[OF assms(1)]]
  let ?s1 = "s\<lparr>m_running := False\<rparr>"
  let ?s0 = "if m_lookupMode ?s1 = UnicastDNS then ?s1\<lparr>m_unicastLookupTimer := False\<rparr> else ?s1"
  have e: "setRunning rx False s = stopQueries rx ?s0"
    using assms(2,3) by (auto simp: setRunning_def Let_def)
  have "core {} ?s0 = core {} s" by (rule core_cong) simp_all
  with v(1) have c0: "core {} ?s0" by simp
  from v(3) assms(3) have j0: "m_jdns ?s0 \<noteq> None" by simp
  from stopQueries_effect[OF c0 j0, of rx] obtain s' where
    s': "stopQueries rx ?s0 = Some s'" and ctl: "ctl s' = ctl ?s0" and q: "quiescent s'" and
    lg: "\<forall>i \<in> fst ` set (m_queryIdServiceMap ?s0). i \<in> set (cancelledQueries s')" and
    ls: "\<forall>q \<in> set (allQueries s'). serviceType q \<in> snd ` set (m_queryIdServiceMap ?s0) \<longrightarrow> items q = []"
    by blast
  have sm: "m_queryIdServiceMap ?s0 = m_queryIdServiceMap s" by simp
  from ctl_D(1)[OF ctl] have r: "\<not> m_running s'" by simp
  from q have "m_queryIdServiceMap s' = []" "\<forall>e \<in> set (m_serviceItemsMap s'). snd e = []"
    by (simp_all add: quiescent_def)
  with s' r lg ls show ?thesis unfolding e sm by blast
qed

text \<open>
  Claim C10 at the state \<open>resolving\<close>: the scan 0 and the sub-queries 1 and 2 of the
  instance \<open>x\<close> are cancelled, and the instance table of \<open>_h._tcp\<close> is empty.
\<close>

theorem stop_running_clears_witness:
  "reachable literalContains resolving \<and> m_running resolving \<and> m_networkReady resolving \<and>
   map_option (\<lambda>s'. (m_running s', m_queryIdServiceMap s', cancelledQueries s', m_serviceItemsMap s',
                     map items (allQueries s')))
     (setRunning literalContains False resolving)
     = Some (False, [], [0, 1, 2], [(''_h._tcp'', [])], [[]])"
  using stop_running_clears[OF reachable_resolving] reachable_resolving
  by (simp add: eval_defs stopQueries_def stopQuery_def clearItems_def stopItemQueries_def
      deleteLater_def cancelledQueries_def)

text \<open>
  Claim C1: in every reachable state where \<open>m_lookupReady\<close> holds, whether the engine is
  running or not, \<open>deinitializeMdns\<close> returns with \<open>m_lookupReady\<close> false, the three maps
  of the registry empty and every instance table empty.
\<close>

theorem deinitialize_clears:
  assumes "reachable rx s" "m_lookupReady s"
  shows "\<exists>s'. deinitializeMdns rx s = Some s' \<and> \<not> m_lookupReady s' \<and>
    m_queryIdTypeMap s' = [] \<and> m_queryIdServiceMap s' = [] \<and> m_queryIdItemMap s' = [] \<and>
    (\<forall>e \<in> set (m_serviceItemsMap s'). snd e = [])"
proof -
  note v = invariantD[OF reachable_invariant[OF assms(1)]]
  from v(4) assms(2) have j: "m_jdns s \<noteq> None" by simp
  have "\<exists>s'. deinitializeMdns rx s = Some s'"
  proof (cases "m_running s")
    case False
    with j show ?thesis by (simp add: deinitializeMdns_def)
  next
    case True
    let ?s0 = "if m_lookupMode s = UnicastDNS then s\<lparr>m_unicastLookupTimer := False\<rparr> else s"
    from j have "m_jdns ?s0 \<noteq> None" by simp
    from removeServiceType_loop_total[OF this, of rx "qkeys (m_serviceItemsMap ?s0)"]
    obtain u where "removeAllServiceTypes rx ?s0 = Some u"
      by (auto simp: removeAllServiceTypes_def)
    with True j show ?thesis by (simp add: deinitializeMdns_def Let_def)
  qed
  then obtain s' where s': "deinitializeMdns rx s = Some s'" ..
  from deinitializeMdns_inv[OF s' v(1,2,4)] have "quiescent s'" "\<not> m_lookupReady s'" by simp_all
  with s' show ?thesis by (simp add: quiescent_def)
qed

text \<open>Claim C1 at the state \<open>resolving\<close>, whose registry holds the ids 0, 1 and 2.\<close>

theorem deinitialize_clears_witness:
  "reachable literalContains resolving \<and> m_lookupReady resolving \<and>
   map_option (\<lambda>s'. (m_lookupReady s', m_queryIdTypeMap s', m_queryIdServiceMap s',
                     m_queryIdItemMap s', m_serviceItemsMap s'))
     (deinitializeMdns literalContains resolving)
     = Some (False, [], [], [], [])"
  using deinitialize_clears[OF reachable_resolving] reachable_resolving
  by (simp add: eval_defs deinitializeMdns_def removeAllServiceTypes_def removeServiceType_def
      clearItems_def stopItemQueries_def deleteLater_def)

subsection \<open>The purge pass on an example\<close>

text \<open>
  Claim C6 at the state \<open>aging\<close>: \<open>x\<close> stays with its flag cleared, \<open>y\<close> is removed on its
  third miss, \<open>z\<close> stays with one miss counted.
\<close>

theorem purge_pass_witness:
  "qcontains (m_serviceItemsMap aging) ''_h._tcp'' \<and> instances aging ''_h._tcp'' = [0, 1, 2] \<and>
   dom (heap aging) = {0, 1, 2} \<and> m_jdns aging \<noteq> None \<and>
   map_option (\<lambda>s'. (instances s' ''_h._tcp'',
                     map (map_option (\<lambda>it. (updated it, errorCount it)) \<circ> heap s') [0, 1, 2]))
     (purgeItems literalContains ''_h._tcp'' aging)
     = Some ([0, 2], [Some (False, 0), None, Some (False, 1)])"
  using purge_pass[of aging "''_h._tcp''" literalContains]
  by (simp add: eval_defs aging_def instances_def purgeItems_def stopItemQueries_def deleteLater_def
      insert_commute)

end
